theory Spec2Isabelle
  imports Main
begin

section \<open>The interpreter interface\<close>

text \<open>
  The extension module \<^verbatim>\<open>_stats_wrapper.c\<close> sees Python objects only as
  pointers. A pointer is modelled by \<open>pyobj\<close>: two values of the type are equal exactly
  when the C pointers are (\<^verbatim>\<open>==\<close>, identity). \<open>Py_None\<close> is the singleton the code tests
  for and returns.
\<close>

datatype pyobj = Py_None | Obj nat

text \<open>
  A pending exception, by the class \<^verbatim>\<open>PyErr_ExceptionMatches\<close> would match it
  against (an instance of a subclass is the constructor of the class).
\<close>

datatype pyexc =
    RecursionError | MemoryError | KeyboardInterrupt
  | ValueError | TypeError | OtherException nat

text \<open>
  \<^verbatim>\<open>PyObject_RichCompareBool(a, b, Py_EQ)\<close> returns 1, 0, or -1 with an exception set.
\<close>

datatype cmp_result = CmpFalse | CmpTrue | CmpError pyexc

fun cmp_int :: "cmp_result \<Rightarrow> int" where
  "cmp_int CmpFalse = 0"
| "cmp_int CmpTrue = 1"
| "cmp_int (CmpError e) = - 1"

text \<open>
  The functions of the C API the module calls are parameters of the model. Comparison
  and the wrapped callable run arbitrary Python code; the model takes their outcome as a
  function of their arguments and leaves any effect they have on the interpreter out
  (a callable that calls its own wrapper again, or changes it, is not modelled).
  \<open>PyTuple_items\<close> is \<^verbatim>\<open>PyTuple_Check\<close> together with the items \<^verbatim>\<open>PyTuple_GET_ITEM\<close> reads
  (\<open>None\<close> when the object is no tuple). The three allocation results say whether
  \<^verbatim>\<open>PyObject_NewVar\<close>, \<^verbatim>\<open>PyDict_New\<close> and the \<^verbatim>\<open>PyMem_Calloc\<close> for slot \<open>i\<close> succeed.
\<close>

record interp =
  PyObject_RichCompareBool :: "pyobj \<Rightarrow> pyobj \<Rightarrow> cmp_result"
  PyObject_Vectorcall :: "pyobj \<Rightarrow> pyobj list \<Rightarrow> (pyobj \<times> pyobj) list \<Rightarrow> pyexc + pyobj"
  PyLong_AsSsize_t :: "pyobj \<Rightarrow> pyexc + int"
  PyUnicode_InternInPlace :: "pyobj \<Rightarrow> pyobj"
  PyTuple_items :: "pyobj \<Rightarrow> pyobj list option"
  PyObject_NewVar_ok :: bool
  PyDict_New_ok :: bool
  PyMem_Calloc_ok :: "nat \<Rightarrow> bool"

text \<open>
  The calls the module makes into the interpreter while it handles one call, in order:
  the comparison of a known value with an argument (line 45), the comparison of a slot's
  name with a supplied keyword name (line 109), and the call of the wrapped callable
  (line 133) with the positional arguments and the keyword arguments it was given.
\<close>

datatype event =
    CmpKnown pyobj pyobj cmp_result
  | CmpName pyobj pyobj cmp_result
  | CallWrapped pyobj "pyobj list" "(pyobj \<times> pyobj) list" "pyexc + pyobj"

section \<open>Undefined behaviour and \<open>Py_ssize_t\<close>\<close>

text \<open>
  The counters are \<^verbatim>\<open>Py_ssize_t\<close>, 64 bits wide on the platforms the module is built
  for. Incrementing the largest value is undefined behaviour in C, as is an access
  outside the slot array. Both are outcomes of the model: a step that runs into one
  yields a \<open>fault\<close> and no state.
\<close>

datatype fault = SignedOverflow | OutOfBounds

definition PY_SSIZE_T_MAX :: int where
  "PY_SSIZE_T_MAX = 2 ^ 63 - 1"

definition ssize_incr :: "int \<Rightarrow> fault + int" where
  "ssize_incr n = (if n < PY_SSIZE_T_MAX then Inr (n + 1) else Inl SignedOverflow)"

definition ssize_add :: "int \<Rightarrow> int \<Rightarrow> fault + int" where
  "ssize_add a b =
     (if - PY_SSIZE_T_MAX - 1 \<le> a + b \<and> a + b \<le> PY_SSIZE_T_MAX then Inr (a + b)
      else Inl SignedOverflow)"

section \<open>The data model\<close>

text \<open>
  \<^verbatim>\<open>arginfo\<close>: \<open>kwname\<close> and \<open>known_params\<close> are \<open>None\<close> for the C \<^verbatim>\<open>NULL\<close>;
  \<open>known_params\<close> holds the items of the (immutable) tuple, \<open>param_counts\<close> the
  allocated array (empty for \<^verbatim>\<open>NULL\<close>).
\<close>

record arginfo =
  kwname :: "pyobj option"
  known_params :: "pyobj list option"
  count :: int
  param_counts :: "int list"

text \<open>
  \<^verbatim>\<open>StatsWrapperObject\<close>. \<open>args\<close> is the whole flexible array, the terminating entry
  included, so \<^verbatim>\<open>Py_SIZE(self)\<close> is its length. The \<^verbatim>\<open>dict\<close> field is never read by
  the code modelled here and is left out.
\<close>

record StatsWrapperObject =
  wrapped :: pyobj
  total_calls :: int
  invalid_args :: int
  error_results :: int
  npos :: int
  npos_only :: int
  args :: "arginfo list"

definition Py_SIZE :: "StatsWrapperObject \<Rightarrow> int" where
  "Py_SIZE self = int (length (args self))"

text \<open>
  What a C function of the module leaves behind when it returns: the object, the
  returned pointer (\<open>None\<close> for \<^verbatim>\<open>NULL\<close>), the exception left set, and the calls it made
  into the interpreter.
\<close>

record outcome =
  self_after :: StatsWrapperObject
  ret :: "pyobj option"
  err :: "pyexc option"
  trace :: "event list"

section \<open>\<^verbatim>\<open>handle_arg_stats\<close>\<close>

text \<open>Lines 37 to 41: the index at which the identity loop stops.\<close>

fun identity_scan :: "pyobj list \<Rightarrow> pyobj \<Rightarrow> nat \<Rightarrow> nat" where
  "identity_scan [] arg idx = idx"
| "identity_scan (k # ks) arg idx =
     (if k = arg then idx else identity_scan ks arg (Suc idx))"

text \<open>
  Lines 49 to 51, under \<^verbatim>\<open>eq < 0\<close>: the exception that makes the function give up.
\<close>

fun critical :: "pyexc \<Rightarrow> bool" where
  "critical RecursionError = True"
| "critical MemoryError = True"
| "critical KeyboardInterrupt = True"
| "critical _ = False"

fun critical_error :: "cmp_result \<Rightarrow> pyexc option" where
  "critical_error (CmpError e) = (if critical e then Some e else None)"
| "critical_error _ = None"

text \<open>
  Lines 44 to 60: the equality loop over the items from \<open>idx\<close> on. \<open>Inl e\<close> is
  \<^verbatim>\<open>return -1\<close> with \<open>e\<close> set; \<open>Inr idx\<close> is the index at which the loop stops. After
  \<^verbatim>\<open>PyErr_Clear()\<close> the test \<^verbatim>\<open>if (eq)\<close> still sees \<open>eq = -1\<close>.
\<close>

fun equality_scan ::
  "interp \<Rightarrow> pyobj list \<Rightarrow> pyobj \<Rightarrow> nat \<Rightarrow> (pyexc + nat) \<times> event list" where
  "equality_scan env [] arg idx = (Inr idx, [])"
| "equality_scan env (k # ks) arg idx =
     (let eq = PyObject_RichCompareBool env k arg in
      case (if cmp_int eq < 0 then critical_error eq else None) of
        Some e \<Rightarrow> (Inl e, [CmpKnown k arg eq])
      | None \<Rightarrow>
          if cmp_int eq \<noteq> 0 then (Inr idx, [CmpKnown k arg eq])
          else apsnd ((#) (CmpKnown k arg eq)) (equality_scan env ks arg (Suc idx)))"

text \<open>
  The function itself. The result is the updated \<^verbatim>\<open>arginfo\<close>, the exception left set
  (\<open>None\<close> for \<^verbatim>\<open>return 0\<close>, \<open>Some e\<close> for \<^verbatim>\<open>return -1\<close>) and the comparisons made.
\<close>

definition handle_arg_stats ::
  "interp \<Rightarrow> arginfo \<Rightarrow> pyobj \<Rightarrow> fault + ((arginfo \<times> pyexc option) \<times> event list)" where
  "handle_arg_stats env a arg =
     (case ssize_incr (count a) of
        Inl f \<Rightarrow> Inl f
      | Inr c \<Rightarrow>
          (let a1 = a\<lparr>count := c\<rparr> in
           case known_params a1 of
             None \<Rightarrow> Inr ((a1, None), [])
           | Some ks \<Rightarrow>
               (let n_params = length ks;
                    idx0 = identity_scan ks arg 0
                in case (if idx0 = n_params then equality_scan env ks arg 0
                         else (Inr idx0, [])) of
                     (Inl e, evs) \<Rightarrow> Inr ((a1, Some e), evs)
                   | (Inr idx, evs) \<Rightarrow>
                       if idx \<noteq> n_params then
                         (if idx < length (param_counts a1) then
                            (case ssize_incr (param_counts a1 ! idx) of
                               Inl f \<Rightarrow> Inl f
                             | Inr v \<Rightarrow>
                                 Inr ((a1\<lparr>param_counts := (param_counts a1)[idx := v]\<rparr>,
                                       None), evs))
                          else Inl OutOfBounds)
                       else Inr ((a1, None), evs))))"

section \<open>\<^verbatim>\<open>statswrapper_vectorcall\<close>\<close>

text \<open>Puts the events \<open>evs\<close> in front of those of what follows.\<close>

definition after :: "event list \<Rightarrow> fault + ('a \<times> event list) \<Rightarrow> fault + ('a \<times> event list)" where
  "after evs m = (case m of Inl f \<Rightarrow> Inl f | Inr (x, evs') \<Rightarrow> Inr (x, evs @ evs'))"

text \<open>
  Lines 84 to 88: the loop over the positional arguments still to be handled, \<open>i\<close> the
  index of the first of them. \<open>Some e\<close> in the result is \<^verbatim>\<open>return NULL\<close> with \<open>e\<close> set.
\<close>

fun pos_loop ::
  "interp \<Rightarrow> StatsWrapperObject \<Rightarrow> nat \<Rightarrow> pyobj list \<Rightarrow>
     fault + ((StatsWrapperObject \<times> pyexc option) \<times> event list)" where
  "pos_loop env self i [] = Inr ((self, None), [])"
| "pos_loop env self i (arg # rest) =
     (if i < length (args self) then
        (case handle_arg_stats env (args self ! i) arg of
           Inl f \<Rightarrow> Inl f
         | Inr ((a, Some e), evs) \<Rightarrow> Inr ((self\<lparr>args := (args self)[i := a]\<rparr>, Some e), evs)
         | Inr ((a, None), evs) \<Rightarrow>
             after evs (pos_loop env (self\<lparr>args := (args self)[i := a]\<rparr>) (Suc i) rest))
      else Inl OutOfBounds)"

text \<open>
  Lines 98 to 104: the identity loop over the slots from \<open>cur\<close> on (the list is the
  array from there); the result is the index at which it stops. Running off the array
  before an entry without a name is a read out of bounds.
\<close>

fun kw_identity_scan :: "arginfo list \<Rightarrow> pyobj \<Rightarrow> nat \<Rightarrow> fault + nat" where
  "kw_identity_scan [] name cur = Inl OutOfBounds"
| "kw_identity_scan (a # rest) name cur =
     (case kwname a of
        None \<Rightarrow> Inr cur
      | Some k \<Rightarrow> if k \<noteq> name then kw_identity_scan rest name (Suc cur) else Inr cur)"

text \<open>Line 110, \<^verbatim>\<open>eq < 0\<close>: the exception the comparison left set.\<close>

fun failed :: "cmp_result \<Rightarrow> pyexc option" where
  "failed (CmpError e) = Some e"
| "failed _ = None"

text \<open>
  Lines 108 to 118: the equality loop over the slots from \<open>cur\<close> on. \<open>Inl e\<close> is
  \<^verbatim>\<open>return NULL\<close> with \<open>e\<close> set.
\<close>

fun kw_equality_scan ::
  "interp \<Rightarrow> arginfo list \<Rightarrow> pyobj \<Rightarrow> nat \<Rightarrow> fault + ((pyexc + nat) \<times> event list)" where
  "kw_equality_scan env [] name cur = Inl OutOfBounds"
| "kw_equality_scan env (a # rest) name cur =
     (case kwname a of
        None \<Rightarrow> Inr (Inr cur, [])
      | Some k \<Rightarrow>
          (let eq = PyObject_RichCompareBool env k name in
           case (if cmp_int eq < 0 then failed eq else None) of
             Some e \<Rightarrow> Inr (Inl e, [CmpName k name eq])
           | None \<Rightarrow>
               if cmp_int eq \<noteq> 0 then Inr (Inr cur, [CmpName k name eq])
               else after [CmpName k name eq] (kw_equality_scan env rest name (Suc cur))))"

text \<open>
  Lines 95 to 119: the slot a keyword name ends at, \<^verbatim>\<open>curr_arginfo - self->args\<close>.
  \<^verbatim>\<open>self->args + self->npos_only\<close> must point into the array.
\<close>

definition find_kw ::
  "interp \<Rightarrow> StatsWrapperObject \<Rightarrow> pyobj \<Rightarrow> fault + ((pyexc + nat) \<times> event list)" where
  "find_kw env self name =
     (if npos_only self < 0 then Inl OutOfBounds
      else
        (let first = nat (npos_only self);
             slots = drop first (args self)
         in case kw_identity_scan slots name first of
              Inl f \<Rightarrow> Inl f
            | Inr cur \<Rightarrow>
                if kwname (args self ! cur) = None then kw_equality_scan env slots name first
                else Inr (Inr cur, [])))"

text \<open>
  Lines 91 to 129: the loop over the keyword arguments still to be handled, each the
  pair of \<^verbatim>\<open>PyTuple_GET_ITEM(kwnames, i)\<close> and \<^verbatim>\<open>args[nargs + i]\<close>. \<open>invalid\<close> is the
  local \<^verbatim>\<open>invalid_args\<close>; \<open>Inl e\<close> in the result is \<^verbatim>\<open>return NULL\<close> with \<open>e\<close> set.
\<close>

fun kw_loop ::
  "interp \<Rightarrow> StatsWrapperObject \<Rightarrow> int \<Rightarrow> (pyobj \<times> pyobj) list \<Rightarrow>
     fault + ((StatsWrapperObject \<times> (pyexc + int)) \<times> event list)" where
  "kw_loop env self invalid [] = Inr ((self, Inr invalid), [])"
| "kw_loop env self invalid ((name, arg) # rest) =
     (case find_kw env self name of
        Inl f \<Rightarrow> Inl f
      | Inr (Inl e, evs) \<Rightarrow> Inr ((self, Inl e), evs)
      | Inr (Inr cur, evs) \<Rightarrow>
          if kwname (args self ! cur) \<noteq> None then
            (case handle_arg_stats env (args self ! cur) arg of
               Inl f \<Rightarrow> Inl f
             | Inr ((a, Some e), evs') \<Rightarrow>
                 Inr ((self\<lparr>args := (args self)[cur := a]\<rparr>, Inl e), evs @ evs')
             | Inr ((a, None), evs') \<Rightarrow>
                 after (evs @ evs')
                   (kw_loop env (self\<lparr>args := (args self)[cur := a]\<rparr>) invalid rest))
          else after evs (kw_loop env self 1 rest))"

text \<open>
  The call itself, for the positional arguments \<open>pos\<close> (\<^verbatim>\<open>nargs\<close> is their number) and
  the keyword arguments \<open>kw\<close>, in the order of \<^verbatim>\<open>kwnames\<close>.
\<close>

definition statswrapper_vectorcall ::
  "interp \<Rightarrow> StatsWrapperObject \<Rightarrow> pyobj list \<Rightarrow> (pyobj \<times> pyobj) list \<Rightarrow> fault + outcome" where
  "statswrapper_vectorcall env self pos kw =
     (let nargs = int (length pos);
          invalid = (if nargs > npos self then 1 else 0);
          nargs_valid = (if nargs > npos self then npos self else nargs)
      in case pos_loop env self 0 (take (nat nargs_valid) pos) of
           Inl f \<Rightarrow> Inl f
         | Inr ((self1, Some e), evs) \<Rightarrow>
             Inr \<lparr>self_after = self1, ret = None, err = Some e, trace = evs\<rparr>
         | Inr ((self1, None), evs) \<Rightarrow>
             (case kw_loop env self1 invalid kw of
                Inl f \<Rightarrow> Inl f
              | Inr ((self2, Inl e), evs') \<Rightarrow>
                  Inr \<lparr>self_after = self2, ret = None, err = Some e, trace = evs @ evs'\<rparr>
              | Inr ((self2, Inr invalid'), evs') \<Rightarrow>
                  (case ssize_incr (total_calls self2) of
                     Inl f \<Rightarrow> Inl f
                   | Inr tc \<Rightarrow>
                       (case ssize_add (invalid_args self2) invalid' of
                          Inl f \<Rightarrow> Inl f
                        | Inr ia \<Rightarrow>
                            (let self3 = self2\<lparr>total_calls := tc, invalid_args := ia\<rparr>;
                                 res = PyObject_Vectorcall env (wrapped self3) pos kw;
                                 evs'' = evs @ evs' @ [CallWrapped (wrapped self3) pos kw res]
                             in case res of
                                  Inl e \<Rightarrow>
                                    (case ssize_incr (error_results self3) of
                                       Inl f \<Rightarrow> Inl f
                                     | Inr er \<Rightarrow>
                                         Inr \<lparr>self_after = self3\<lparr>error_results := er\<rparr>,
                                              ret = None, err = Some e, trace = evs''\<rparr>)
                                | Inr v \<Rightarrow>
                                    Inr \<lparr>self_after = self3, ret = Some v, err = None,
                                         trace = evs''\<rparr>)))))"

section \<open>\<^verbatim>\<open>statswrapper__set_npos\<close>\<close>

text \<open>
  Lines 196 to 205. After \<^verbatim>\<open>PyErr_SetString\<close> the function goes on: it stores the
  value and returns \<^verbatim>\<open>None\<close>.
\<close>

definition statswrapper__set_npos :: "interp \<Rightarrow> StatsWrapperObject \<Rightarrow> pyobj \<Rightarrow> outcome" where
  "statswrapper__set_npos env self arg =
     (case PyLong_AsSsize_t env arg of
        Inl e \<Rightarrow> \<lparr>self_after = self, ret = None, err = Some e, trace = []\<rparr>
      | Inr n \<Rightarrow>
          \<lparr>self_after = self\<lparr>npos := n\<rparr>, ret = Some Py_None,
           err = (if n < npos_only self \<or> n > Py_SIZE self - 1 then Some ValueError else None),
           trace = []\<rparr>)"

section \<open>\<^verbatim>\<open>stats_wrapper_create\<close>\<close>

text \<open>
  Lines 317 to 342: the loop over the specifications from index \<open>i\<close> on, each with the
  keyword name it was given by (\<open>None\<close> for a positional one). The result is the slots
  filled, or the exception of the first \<^verbatim>\<open>return\<close> inside the loop.
\<close>

fun fill_args :: "interp \<Rightarrow> nat \<Rightarrow> (pyobj option \<times> pyobj) list \<Rightarrow> pyexc + arginfo list" where
  "fill_args env i [] = Inr []"
| "fill_args env i ((name, spec) # rest) =
     (let named = \<lparr>kwname = map_option (PyUnicode_InternInPlace env) name,
                    known_params = None, count = 0, param_counts = []\<rparr>
      in if spec = Py_None then map_sum id ((#) named) (fill_args env (Suc i) rest)
         else
           (case PyTuple_items env spec of
              None \<Rightarrow> Inl TypeError
            | Some items \<Rightarrow>
                if PyMem_Calloc_ok env i then
                  map_sum id
                    ((#) (named\<lparr>known_params := Some items,
                                 param_counts := replicate (length items) 0\<rparr>))
                    (fill_args env (Suc i) rest)
                else Inl MemoryError))"

text \<open>
  The factory, for the positional arguments \<open>pos\<close> (the callable first) and the keyword
  arguments \<open>kw\<close>. The array has one entry more than there are specifications, zeroed.
\<close>

definition stats_wrapper_create ::
  "interp \<Rightarrow> pyobj list \<Rightarrow> (pyobj \<times> pyobj) list \<Rightarrow> pyexc + StatsWrapperObject" where
  "stats_wrapper_create env pos kw =
     (case pos of
        [] \<Rightarrow> Inl TypeError
      | callee # specs \<Rightarrow>
          (let nargs = length specs;
               total_args = nargs + length kw
           in if PyObject_NewVar_ok env then
                if PyDict_New_ok env then
                  (case fill_args env 0
                          (map (Pair None) specs @ map (\<lambda>(name, spec). (Some name, spec)) kw) of
                     Inl e \<Rightarrow> Inl e
                   | Inr slots \<Rightarrow>
                       Inr \<lparr>wrapped = callee, total_calls = 0, invalid_args = 0,
                            error_results = 0, npos = int total_args, npos_only = int nargs,
                            args = slots @ [\<lparr>kwname = None, known_params = None, count = 0,
                                             param_counts = []\<rparr>]\<rparr>)
                else Inl MemoryError
              else Inl MemoryError))"

section \<open>Sequences of operations\<close>

text \<open>
  What a wrapper goes through after its construction: calls and \<^verbatim>\<open>_set_npos\<close>. The
  object keeps what a function did to it also when the function returns \<^verbatim>\<open>NULL\<close>.
\<close>

datatype operation = Invoke "pyobj list" "(pyobj \<times> pyobj) list" | SetNpos pyobj

fun run :: "interp \<Rightarrow> StatsWrapperObject \<Rightarrow> operation list \<Rightarrow> fault + StatsWrapperObject" where
  "run env self [] = Inr self"
| "run env self (Invoke pos kw # ops) =
     (case statswrapper_vectorcall env self pos kw of
        Inl f \<Rightarrow> Inl f
      | Inr r \<Rightarrow> run env (self_after r) ops)"
| "run env self (SetNpos arg # ops) =
     run env (self_after (statswrapper__set_npos env self arg)) ops"

section \<open>An interpreter to run examples in\<close>

text \<open>
  The objects of the examples: \<open>Obj 0\<close> is a callable that returns its first positional
  argument and raises \<open>TypeError\<close> when it has none; \<open>Obj 1\<close> to \<open>Obj 4\<close> and \<open>Obj 9\<close> are
  the strings \<^verbatim>\<open>"a"\<close>, \<^verbatim>\<open>"b"\<close>, \<^verbatim>\<open>"x"\<close>, \<^verbatim>\<open>"y"\<close> and \<^verbatim>\<open>"c"\<close>; \<open>Obj 5\<close> is the interned string
  \<^verbatim>\<open>"name"\<close> and \<open>Obj 6\<close> another string object equal to it; comparing \<open>Obj 7\<close> with another
  object raises \<open>ValueError\<close> (an array has no truth value), comparing \<open>Obj 8\<close> with
  another object raises \<open>MemoryError\<close>; \<open>Obj 20\<close> and \<open>Obj 21\<close> are the tuples
  \<^verbatim>\<open>("a", "b")\<close> and \<^verbatim>\<open>("x", "y")\<close>; \<open>Obj (100 + n)\<close> is the integer \<open>n\<close>. Nothing fails to
  allocate.
\<close>

definition plain_interp :: interp where
  "plain_interp =
     \<lparr>PyObject_RichCompareBool =
        (\<lambda>a b. if a = b then CmpTrue
               else if a = Obj 7 \<or> b = Obj 7 then CmpError ValueError
               else if a = Obj 8 \<or> b = Obj 8 then CmpError MemoryError
               else if a = Obj 5 \<and> b = Obj 6 \<or> a = Obj 6 \<and> b = Obj 5 then CmpTrue
               else CmpFalse),
      PyObject_Vectorcall = (\<lambda>f pos kw. case pos of [] \<Rightarrow> Inl TypeError | x # xs \<Rightarrow> Inr x),
      PyLong_AsSsize_t =
        (\<lambda>x. case x of Py_None \<Rightarrow> Inl TypeError
              | Obj n \<Rightarrow> if 100 \<le> n then Inr (int (n - 100)) else Inl TypeError),
      PyUnicode_InternInPlace = (\<lambda>x. x),
      PyTuple_items =
        (\<lambda>x. if x = Obj 20 then Some [Obj 1, Obj 2]
              else if x = Obj 21 then Some [Obj 3, Obj 4] else None),
      PyObject_NewVar_ok = True,
      PyDict_New_ok = True,
      PyMem_Calloc_ok = (\<lambda>i. True)\<rparr>"

text \<open>The wrapper \<^verbatim>\<open>stats_wrapper(f)\<close>: no slot but the terminating entry.\<close>

definition bare_wrapper :: StatsWrapperObject where
  "bare_wrapper =
     \<lparr>wrapped = Obj 0, total_calls = 0, invalid_args = 0, error_results = 0, npos = 0,
      npos_only = 0,
      args = [\<lparr>kwname = None, known_params = None, count = 0, param_counts = []\<rparr>]\<rparr>"

text \<open>
  The wrapper \<^verbatim>\<open>stats_wrapper(f, ("a", "b"), name=("x", "y"))\<close>: a positional slot and a
  slot named \<^verbatim>\<open>"name"\<close>.
\<close>

definition ab_name_wrapper :: StatsWrapperObject where
  "ab_name_wrapper =
     \<lparr>wrapped = Obj 0, total_calls = 0, invalid_args = 0, error_results = 0, npos = 2,
      npos_only = 1,
      args = [\<lparr>kwname = None, known_params = Some [Obj 1, Obj 2], count = 0,
                param_counts = [0, 0]\<rparr>,
              \<lparr>kwname = Some (Obj 5), known_params = Some [Obj 3, Obj 4], count = 0,
                param_counts = [0, 0]\<rparr>,
              \<lparr>kwname = None, known_params = None, count = 0, param_counts = []\<rparr>]\<rparr>"

section \<open>What a call did: traces\<close>

text \<open>
  The exception with which an event ends the call before the wrapped callable is reached:
  a known-value comparison that failed with one of the three critical exceptions (line
  52), or a name comparison that failed at all (line 112). \<open>is_call\<close> and \<open>is_known\<close> tell
  the call of the wrapped callable and the known-value comparisons from the other events.
\<close>

fun aborting :: "event \<Rightarrow> pyexc option" where
  "aborting (CmpKnown k arg eq) = critical_error eq"
| "aborting (CmpName k name eq) = failed eq"
| "aborting (CallWrapped f pos kw res) = None"

fun is_call :: "event \<Rightarrow> bool" where
  "is_call (CallWrapped f pos kw res) = True"
| "is_call _ = False"

fun is_known :: "event \<Rightarrow> bool" where
  "is_known (CmpKnown k arg eq) = True"
| "is_known _ = False"

text \<open>
  A trace is \<open>quiet\<close> when none of its events ends the call and none is the call of the
  wrapped callable; it is \<open>aborted_by\<close> an exception when its last event ends the call with
  it and what came before is quiet; it is \<open>interrupted\<close> when some event ends the call.
\<close>

definition quiet :: "event list \<Rightarrow> bool" where
  "quiet evs = list_all (\<lambda>ev. aborting ev = None \<and> \<not> is_call ev) evs"

definition aborted_by :: "event list \<Rightarrow> pyexc \<Rightarrow> bool" where
  "aborted_by evs e =
     (evs \<noteq> [] \<and> quiet (butlast evs) \<and> aborting (last evs) = Some e \<and> \<not> is_call (last evs))"

definition interrupted :: "event list \<Rightarrow> bool" where
  "interrupted evs = list_ex (\<lambda>ev. aborting ev \<noteq> None) evs"

text \<open>
  The two ways a call ends when it stays clear of undefined behaviour. Aborted: \<^verbatim>\<open>NULL\<close>
  is returned with the exception of the comparison that ended the call, and the three
  counters of the wrapper are untouched. Delegated: the last event is the call of the
  wrapped callable with the arguments as they were given, \<open>total_calls\<close> has grown by
  one, \<open>invalid_args\<close> by one or not at all (by one if there were more than \<open>npos\<close>
  positional arguments), and the result and \<open>error_results\<close> follow what the wrapped
  callable did.
\<close>

definition ends_aborted :: "StatsWrapperObject \<Rightarrow> outcome \<Rightarrow> bool" where
  "ends_aborted s r =
     (\<exists>e. ret r = None \<and> err r = Some e \<and> aborted_by (trace r) e
        \<and> total_calls (self_after r) = total_calls s
        \<and> invalid_args (self_after r) = invalid_args s
        \<and> error_results (self_after r) = error_results s)"

definition ends_delegated ::
  "interp \<Rightarrow> StatsWrapperObject \<Rightarrow> pyobj list \<Rightarrow> (pyobj \<times> pyobj) list \<Rightarrow> outcome \<Rightarrow> bool" where
  "ends_delegated env s pos kw r =
     (let res = PyObject_Vectorcall env (wrapped s) pos kw in
      (\<exists>evs. trace r = evs @ [CallWrapped (wrapped s) pos kw res] \<and> quiet evs)
      \<and> total_calls (self_after r) = total_calls s + 1
      \<and> (invalid_args (self_after r) = invalid_args s
           \<or> invalid_args (self_after r) = invalid_args s + 1)
      \<and> (npos s < int (length pos) \<longrightarrow> invalid_args (self_after r) = invalid_args s + 1)
      \<and> (case res of
            Inl e \<Rightarrow> ret r = None \<and> err r = Some e
                     \<and> error_results (self_after r) = error_results s + 1
          | Inr v \<Rightarrow> ret r = Some v \<and> err r = None
                     \<and> error_results (self_after r) = error_results s))"

section \<open>Orders on the counters\<close>

text \<open>
  \<open>arginfo_le a b\<close>: \<open>b\<close> is the slot \<open>a\<close> with counters that are no smaller (same name, same
  known values, as many per-value counters). \<open>counters_le\<close> is the same for a wrapper, and
  \<open>counters_bounded\<close> the bounds of \<open>error_results\<close> and \<open>invalid_args\<close> by \<open>total_calls\<close>.
\<close>

definition arginfo_le :: "arginfo \<Rightarrow> arginfo \<Rightarrow> bool" where
  "arginfo_le a b =
     (kwname b = kwname a \<and> known_params b = known_params a \<and> count a \<le> count b
      \<and> list_all2 (\<le>) (param_counts a) (param_counts b))"

definition counters_le :: "StatsWrapperObject \<Rightarrow> StatsWrapperObject \<Rightarrow> bool" where
  "counters_le s t =
     (total_calls s \<le> total_calls t \<and> error_results s \<le> error_results t
      \<and> invalid_args s \<le> invalid_args t \<and> list_all2 arginfo_le (args s) (args t))"

definition counters_bounded :: "StatsWrapperObject \<Rightarrow> bool" where
  "counters_bounded s =
     (0 \<le> error_results s \<and> 0 \<le> invalid_args s
      \<and> error_results s \<le> total_calls s \<and> invalid_args s \<le> total_calls s)"

section \<open>Well-formed wrappers and room in the counters\<close>

text \<open>
  What the factory establishes and every operation keeps: \<open>npos_only\<close> is an index into
  the array, the last entry has no name, the entries from \<open>npos_only\<close> up to it have one,
  and a slot with known values has as many per-value counters. The value of \<open>npos\<close> is
  not part of it.
\<close>

definition wf_slot :: "arginfo \<Rightarrow> bool" where
  "wf_slot a =
     (case known_params a of None \<Rightarrow> True | Some ks \<Rightarrow> length (param_counts a) = length ks)"

definition wf_wrapper :: "StatsWrapperObject \<Rightarrow> bool" where
  "wf_wrapper s =
     (0 \<le> npos_only s \<and> nat (npos_only s) < length (args s)
      \<and> kwname (last (args s)) = None
      \<and> list_all (\<lambda>a. kwname a \<noteq> None) (butlast (drop (nat (npos_only s)) (args s)))
      \<and> list_all wf_slot (args s))"

text \<open>
  \<open>room n s\<close>: the counters of \<open>s\<close> are far enough below \<open>PY_SSIZE_T_MAX\<close> for a call with
  \<open>n\<close> arguments not to overflow any of them.
\<close>

definition slot_room :: "nat \<Rightarrow> arginfo \<Rightarrow> bool" where
  "slot_room n a =
     (count a + int n \<le> PY_SSIZE_T_MAX
      \<and> list_all (\<lambda>c. c + int n \<le> PY_SSIZE_T_MAX) (param_counts a))"

definition room :: "nat \<Rightarrow> StatsWrapperObject \<Rightarrow> bool" where
  "room n s =
     (total_calls s < PY_SSIZE_T_MAX \<and> error_results s < PY_SSIZE_T_MAX
      \<and> - PY_SSIZE_T_MAX - 1 \<le> invalid_args s \<and> invalid_args s < PY_SSIZE_T_MAX
      \<and> list_all (slot_room n) (args s))"

section \<open>What a call does to a slot\<close>

text \<open>
  What a slot becomes when \<^verbatim>\<open>handle_arg_stats\<close> is called on it for the values \<open>vs\<close> in
  turn and returns 0 each time (\<open>None\<close> when a call does not).
\<close>

fun classify_all :: "interp \<Rightarrow> arginfo \<Rightarrow> pyobj list \<Rightarrow> arginfo option" where
  "classify_all env a [] = Some a"
| "classify_all env a (v # vs) =
     (case handle_arg_stats env a v of
        Inr ((a', None), evs) \<Rightarrow> classify_all env a' vs
      | _ \<Rightarrow> None)"

text \<open>
  The slot a keyword argument of that name is counted for: where the search of lines 95
  to 119 ends, when it ends at an entry with a name.
\<close>

definition slot_of :: "interp \<Rightarrow> StatsWrapperObject \<Rightarrow> pyobj \<Rightarrow> nat option" where
  "slot_of env s name =
     (case find_kw env s name of
        Inr (Inr cur, evs) \<Rightarrow> if kwname (args s ! cur) \<noteq> None then Some cur else None
      | _ \<Rightarrow> None)"

section \<open>The searches in the words of the specification\<close>

text \<open>
  The searches as the specification words them: the first index, counted from \<open>i\<close>, of
  an element with the property.
\<close>

fun first_where :: "('a \<Rightarrow> bool) \<Rightarrow> 'a list \<Rightarrow> nat \<Rightarrow> nat option" where
  "first_where P [] i = None"
| "first_where P (x # xs) i = (if P x then Some i else first_where P xs (Suc i))"

text \<open>
  The specification's search for the slot of a keyword name (section 4.1, step 3): among
  the slots with index at least \<open>npos_only\<close>, the first whose stored name is the same
  object as \<open>name\<close>; if there is none, the first whose stored name compares equal to it.
  The slots are the entries of the array but the terminating one.
\<close>

definition spec_find_slot :: "interp \<Rightarrow> StatsWrapperObject \<Rightarrow> pyobj \<Rightarrow> nat option" where
  "spec_find_slot env s name =
     (let first = nat (npos_only s);
          slots = butlast (drop first (args s))
      in case first_where (\<lambda>a. kwname a = Some name) slots first of
           Some i \<Rightarrow> Some i
         | None \<Rightarrow>
             first_where
               (\<lambda>a. case kwname a of
                      None \<Rightarrow> False
                    | Some k \<Rightarrow> PyObject_RichCompareBool env k name = CmpTrue)
               slots first)"

text \<open>Whether comparing some slot's name with \<open>name\<close> fails.\<close>

definition name_comparison_fails :: "interp \<Rightarrow> StatsWrapperObject \<Rightarrow> pyobj \<Rightarrow> bool" where
  "name_comparison_fails env s name =
     list_ex
       (\<lambda>a. case kwname a of
              None \<Rightarrow> False
            | Some k \<Rightarrow> failed (PyObject_RichCompareBool env k name) \<noteq> None)
       (args s)"

text \<open>
  The specification's matching of an argument against known values (section 4.1, step
  2): the first known value that is the same object as the argument; if there is none,
  the first that compares equal to it.
\<close>

definition spec_match :: "interp \<Rightarrow> pyobj list \<Rightarrow> pyobj \<Rightarrow> nat option" where
  "spec_match env ks arg =
     (case first_where (\<lambda>k. k = arg) ks 0 of
        Some j \<Rightarrow> Some j
      | None \<Rightarrow> first_where (\<lambda>k. PyObject_RichCompareBool env k arg = CmpTrue) ks 0)"

section \<open>Facts about traces and the loops\<close>

text \<open>
  From here on, properties. First what each loop leaves behind: the only field it
  changes is \<open>args\<close>, no counter of a slot decreases, and its events are quiet unless it
  returns with an exception, which is then the one its last event raised.
\<close>

lemma quiet_Nil [simp]: "quiet []"
  by (simp add: quiet_def)

lemma quiet_Cons [simp]: "quiet (ev # evs) = (aborting ev = None \<and> \<not> is_call ev \<and> quiet evs)"
  by (simp add: quiet_def)

lemma quiet_append [simp]: "quiet (xs @ ys) = (quiet xs \<and> quiet ys)"
  by (simp add: quiet_def)

lemma aborted_by_single [simp]:
  "aborted_by [ev] e = (aborting ev = Some e \<and> \<not> is_call ev)"
  by (simp add: aborted_by_def)

lemma aborted_by_Cons:
  "aborting ev = None \<Longrightarrow> \<not> is_call ev \<Longrightarrow> aborted_by evs e \<Longrightarrow> aborted_by (ev # evs) e"
  by (cases evs) (simp_all add: aborted_by_def)

lemma aborted_by_append: "quiet xs \<Longrightarrow> aborted_by ys e \<Longrightarrow> aborted_by (xs @ ys) e"
  by (induction xs) (simp_all add: aborted_by_Cons)

lemma aborted_by_not_quiet: "aborted_by evs e \<Longrightarrow> \<not> quiet evs"
proof
  assume a: "aborted_by evs e" and q: "quiet evs"
  from a have "evs \<noteq> []" and l: "aborting (last evs) = Some e" by (simp_all add: aborted_by_def)
  then have "last evs \<in> set evs" by simp
  with q have "aborting (last evs) = None" by (simp add: quiet_def list_all_iff)
  with l show False by simp
qed

lemma aborted_by_last:
  assumes "aborted_by evs e" and "ev \<in> set evs" and "aborting ev = Some e'"
  shows "ev = last evs \<and> e' = e"
proof -
  from assms(1) have ne: "evs \<noteq> []" and q: "quiet (butlast evs)"
    and l: "aborting (last evs) = Some e"
    by (simp_all add: aborted_by_def)
  from ne have "evs = butlast evs @ [last evs]" by simp
  then have "set evs = set (butlast evs) \<union> {last evs}"
    by (metis Un_insert_right list.simps(15) set_append sup_bot.right_neutral list.set(1))
  with assms(2) have "ev \<in> set (butlast evs) \<or> ev = last evs" by auto
  then show ?thesis
  proof
    assume "ev \<in> set (butlast evs)"
    with q have "aborting ev = None" by (simp add: quiet_def list_all_iff)
    with assms(3) show ?thesis by simp
  next
    assume "ev = last evs"
    with l assms(3) show ?thesis by simp
  qed
qed

lemma quiet_no_call: "quiet evs \<Longrightarrow> \<not> list_ex is_call evs"
  by (auto simp: quiet_def list_all_iff list_ex_iff)

lemma aborted_by_no_call:
  assumes "aborted_by evs e"
  shows "\<not> list_ex is_call evs"
proof -
  from assms have ne: "evs \<noteq> []" and q: "quiet (butlast evs)" and l: "\<not> is_call (last evs)"
    by (simp_all add: aborted_by_def)
  from ne have "evs = butlast evs @ [last evs]" by simp
  then have "list_ex is_call evs = list_ex is_call (butlast evs @ [last evs])" by simp
  also have "\<dots> = (list_ex is_call (butlast evs) \<or> is_call (last evs))"
    by (auto simp: list_ex_iff)
  finally show ?thesis using quiet_no_call [OF q] l by simp
qed

lemma quiet_filter_call: "quiet evs \<Longrightarrow> filter is_call evs = []"
  by (auto simp: quiet_def list_all_iff filter_empty_conv)

lemma quiet_not_interrupted: "quiet evs \<Longrightarrow> \<not> interrupted evs"
  by (auto simp: quiet_def interrupted_def list_all_iff list_ex_iff)

lemma aborted_by_interrupted: "aborted_by evs e \<Longrightarrow> interrupted evs"
proof -
  assume a: "aborted_by evs e"
  then have "evs \<noteq> []" and l: "aborting (last evs) = Some e" by (simp_all add: aborted_by_def)
  then have "last evs \<in> set evs" by simp
  with l show ?thesis by (auto simp: interrupted_def list_ex_iff)
qed

lemma interrupted_append [simp]: "interrupted (xs @ ys) = (interrupted xs \<or> interrupted ys)"
  by (auto simp: interrupted_def list_ex_iff)

lemma interrupted_call [simp]: "\<not> interrupted [CallWrapped f pos kw res]"
  by (simp add: interrupted_def)

lemma equality_scan_trace:
  "equality_scan env ks arg idx = (r, evs) \<Longrightarrow>
     (case r of Inl e \<Rightarrow> aborted_by evs e \<and> critical e | Inr j \<Rightarrow> quiet evs)"
proof (induction ks arbitrary: idx r evs)
  case Nil
  then show ?case by auto
next
  case (Cons k ks)
  let ?eq = "PyObject_RichCompareBool env k arg"
  show ?case
  proof (cases ?eq)
    case CmpFalse
    obtain r' evs' where rec: "equality_scan env ks arg (Suc idx) = (r', evs')"
      by (cases "equality_scan env ks arg (Suc idx)")
    with Cons.prems CmpFalse have r: "r = r'" and e: "evs = CmpKnown k arg CmpFalse # evs'"
      by (simp_all add: Let_def)
    from Cons.IH [OF rec] show ?thesis
      unfolding r e by (cases r') (simp_all add: aborted_by_Cons)
  next
    case CmpTrue
    with Cons.prems show ?thesis by (auto simp: Let_def)
  next
    case (CmpError x)
    with Cons.prems show ?thesis by (auto simp: Let_def split: if_splits)
  qed
qed

lemma list_all2_le_update:
  "i < length xs \<Longrightarrow> (xs ! i :: int) \<le> v \<Longrightarrow> list_all2 (\<le>) xs (xs[i := v])"
  by (auto simp: list_all2_conv_all_nth nth_list_update)

lemma handle_arg_stats_result:
  assumes "handle_arg_stats env a arg = Inr ((a', x), evs)"
  shows "kwname a' = kwname a \<and> known_params a' = known_params a
         \<and> count a' = count a + 1 \<and> count a < PY_SSIZE_T_MAX
         \<and> list_all2 (\<le>) (param_counts a) (param_counts a')
         \<and> (case x of None \<Rightarrow> quiet evs
             | Some e \<Rightarrow> aborted_by evs e \<and> critical e \<and> param_counts a' = param_counts a)"
proof (cases "known_params a")
  case None
  with assms show ?thesis
    by (auto simp: handle_arg_stats_def ssize_incr_def list_all2_refl split: if_splits)
next
  case (Some ks)
  show ?thesis
  proof (cases "identity_scan ks arg 0 = length ks")
    case True
    obtain r evs' where sc: "equality_scan env ks arg 0 = (r, evs')"
      by (cases "equality_scan env ks arg 0")
    from equality_scan_trace [OF sc] assms Some True sc show ?thesis
      by (cases r)
        (auto simp: handle_arg_stats_def ssize_incr_def Let_def list_all2_refl list_all2_le_update
          split: if_splits)
  next
    case False
    with assms Some show ?thesis
      by (auto simp: handle_arg_stats_def ssize_incr_def Let_def list_all2_refl list_all2_le_update
          split: if_splits)
  qed
qed

lemma handle_arg_stats_le:
  "handle_arg_stats env a arg = Inr ((a', x), evs) \<Longrightarrow> arginfo_le a a'"
  using handle_arg_stats_result [of env a arg a' x evs] by (simp add: arginfo_le_def)

lemma arginfo_le_refl [simp]: "arginfo_le a a"
  by (simp add: arginfo_le_def list_all2_refl)

lemma arginfo_le_trans: "arginfo_le a b \<Longrightarrow> arginfo_le b c \<Longrightarrow> arginfo_le a c"
  unfolding arginfo_le_def
  by (auto elim: list_all2_trans [rotated])

lemma slots_le_refl [simp]: "list_all2 arginfo_le xs xs"
  by (simp add: list_all2_refl)

lemma slots_le_trans:
  "list_all2 arginfo_le xs ys \<Longrightarrow> list_all2 arginfo_le ys zs \<Longrightarrow> list_all2 arginfo_le xs zs"
  by (rule list_all2_trans [of arginfo_le arginfo_le arginfo_le]) (auto intro: arginfo_le_trans)

lemma slots_le_update:
  "i < length xs \<Longrightarrow> arginfo_le (xs ! i) a \<Longrightarrow> list_all2 arginfo_le xs (xs[i := a])"
  by (auto simp: list_all2_conv_all_nth nth_list_update)

lemma slots_le_kwnames: "list_all2 arginfo_le xs ys \<Longrightarrow> map kwname ys = map kwname xs"
  by (induction rule: list_all2_induct) (simp_all add: arginfo_le_def)

lemma after_Inr:
  "after evs m = Inr (x, evs') \<longleftrightarrow> (\<exists>evs''. m = Inr (x, evs'') \<and> evs' = evs @ evs'')"
  by (auto simp: after_def split: sum.splits)

lemma after_Inl [simp]: "after evs m = Inl f \<longleftrightarrow> m = Inl f"
  by (auto simp: after_def split: sum.splits)

lemma pos_loop_result:
  "pos_loop env s i as = Inr ((s', x), evs) \<Longrightarrow>
     s' = s\<lparr>args := args s'\<rparr> \<and> list_all2 arginfo_le (args s) (args s')
     \<and> (case x of None \<Rightarrow> quiet evs | Some e \<Rightarrow> aborted_by evs e \<and> critical e)"
proof (induction as arbitrary: s i evs)
  case Nil
  then show ?case by auto
next
  case (Cons arg rest)
  from Cons.prems have i: "i < length (args s)"
    by (simp split: if_splits)
  with Cons.prems obtain a y evs1 where
    h: "handle_arg_stats env (args s ! i) arg = Inr ((a, y), evs1)"
    by (cases "handle_arg_stats env (args s ! i) arg") auto
  note hr = handle_arg_stats_result [OF h] handle_arg_stats_le [OF h]
  let ?s1 = "s\<lparr>args := (args s)[i := a]\<rparr>"
  have le1: "list_all2 arginfo_le (args s) (args ?s1)"
    using i hr by (simp add: slots_le_update)
  show ?case
  proof (cases y)
    case (Some e)
    with Cons.prems i h have "s' = ?s1" "x = Some e" "evs = evs1" by simp_all
    with hr Some le1 show ?thesis by auto
  next
    case None
    with Cons.prems i h obtain evs2 where
      rec: "pos_loop env ?s1 (Suc i) rest = Inr ((s', x), evs2)" and evs: "evs = evs1 @ evs2"
      by (auto simp: after_Inr)
    from Cons.IH [OF rec] have
      s': "s' = ?s1\<lparr>args := args s'\<rparr>" and le2: "list_all2 arginfo_le (args ?s1) (args s')"
      and tr: "case x of None \<Rightarrow> quiet evs2 | Some e \<Rightarrow> aborted_by evs2 e \<and> critical e"
      by blast+
    from s' have "s' = s\<lparr>args := args s'\<rparr>" by simp
    moreover from le1 le2 have "list_all2 arginfo_le (args s) (args s')" by (rule slots_le_trans)
    moreover from tr hr None evs
    have "case x of None \<Rightarrow> quiet evs | Some e \<Rightarrow> aborted_by evs e \<and> critical e"
      by (cases x) (simp_all add: aborted_by_append)
    ultimately show ?thesis by blast
  qed
qed

lemma kw_identity_scan_bound:
  "kw_identity_scan slots name cur = Inr j \<Longrightarrow> cur \<le> j \<and> j < cur + length slots"
proof (induction slots arbitrary: cur)
  case Nil
  then show ?case by simp
next
  case (Cons a rest)
  then show ?case by (fastforce split: option.splits if_splits)
qed

lemma kw_equality_scan_result:
  "kw_equality_scan env slots name cur = Inr (r, evs) \<Longrightarrow>
     (case r of Inl e \<Rightarrow> aborted_by evs e
      | Inr j \<Rightarrow> quiet evs \<and> cur \<le> j \<and> j < cur + length slots)"
proof (induction slots arbitrary: cur evs)
  case Nil
  then show ?case by simp
next
  case (Cons a rest)
  show ?case
  proof (cases "kwname a")
    case None
    with Cons.prems show ?thesis by auto
  next
    case (Some k)
    let ?eq = "PyObject_RichCompareBool env k name"
    show ?thesis
    proof (cases ?eq)
      case CmpFalse
      with Cons.prems Some obtain evs' where
        rec: "kw_equality_scan env rest name (Suc cur) = Inr (r, evs')"
        and e: "evs = CmpName k name CmpFalse # evs'"
        by (auto simp: Let_def after_Inr)
      from Cons.IH [OF rec] show ?thesis
        unfolding e by (cases r) (simp_all add: aborted_by_Cons)
    next
      case CmpTrue
      with Cons.prems Some show ?thesis by (auto simp: Let_def)
    next
      case (CmpError x)
      with Cons.prems Some show ?thesis by (auto simp: Let_def)
    qed
  qed
qed

lemma find_kw_result:
  assumes "find_kw env s name = Inr (r, evs)"
  shows "case r of Inl e \<Rightarrow> aborted_by evs e | Inr j \<Rightarrow> quiet evs \<and> j < length (args s)"
proof -
  let ?first = "nat (npos_only s)"
  let ?slots = "drop ?first (args s)"
  from assms have nn: "\<not> npos_only s < 0" by (auto simp: find_kw_def split: if_splits)
  with assms obtain cur where id: "kw_identity_scan ?slots name ?first = Inr cur"
    by (cases "kw_identity_scan ?slots name ?first") (auto simp: find_kw_def Let_def)
  from kw_identity_scan_bound [OF id] have cur: "cur < length (args s)" by auto
  show ?thesis
  proof (cases "kwname (args s ! cur) = None")
    case True
    with assms nn id have "kw_equality_scan env ?slots name ?first = Inr (r, evs)"
      by (simp add: find_kw_def Let_def)
    from kw_equality_scan_result [OF this] show ?thesis
      by (cases r) auto
  next
    case False
    with assms nn id cur show ?thesis by (auto simp: find_kw_def Let_def)
  qed
qed

lemma kw_loop_result:
  "kw_loop env s iv kw = Inr ((s', x), evs) \<Longrightarrow>
     s' = s\<lparr>args := args s'\<rparr> \<and> list_all2 arginfo_le (args s) (args s')
     \<and> (case x of Inl e \<Rightarrow> aborted_by evs e
         | Inr iv' \<Rightarrow> quiet evs \<and> (iv' = iv \<or> iv' = 1))"
proof (induction kw arbitrary: s iv evs)
  case Nil
  then show ?case by auto
next
  case (Cons p rest)
  obtain name arg where p: "p = (name, arg)" by (cases p)
  from Cons.prems p obtain r evs0 where f: "find_kw env s name = Inr (r, evs0)"
    by (cases "find_kw env s name") auto
  note fr = find_kw_result [OF f]
  show ?case
  proof (cases r)
    case (Inl e)
    with Cons.prems p f fr show ?thesis by auto
  next
    case (Inr cur)
    with fr have q0: "quiet evs0" and cur: "cur < length (args s)" by simp_all
    show ?thesis
    proof (cases "kwname (args s ! cur) = None")
      case True
      with Cons.prems p f Inr obtain evs2 where
        rec: "kw_loop env s 1 rest = Inr ((s', x), evs2)" and evs: "evs = evs0 @ evs2"
        by (auto simp: after_Inr)
      from Cons.IH [OF rec] q0 evs show ?thesis
        by (cases x) (auto simp: aborted_by_append)
    next
      case False
      with Cons.prems p f Inr obtain a y evs1 where
        h: "handle_arg_stats env (args s ! cur) arg = Inr ((a, y), evs1)"
        by (cases "handle_arg_stats env (args s ! cur) arg") auto
      note hr = handle_arg_stats_result [OF h] handle_arg_stats_le [OF h]
      let ?s1 = "s\<lparr>args := (args s)[cur := a]\<rparr>"
      have le1: "list_all2 arginfo_le (args s) (args ?s1)"
        using cur hr by (simp add: slots_le_update)
      show ?thesis
      proof (cases y)
        case (Some e)
        with Cons.prems p f Inr False h
        have "s' = ?s1" "x = Inl e" "evs = evs0 @ evs1" by simp_all
        with hr Some le1 q0 show ?thesis by (auto simp: aborted_by_append)
      next
        case None
        with Cons.prems p f Inr False h obtain evs2 where
          rec: "kw_loop env ?s1 iv rest = Inr ((s', x), evs2)"
          and evs: "evs = (evs0 @ evs1) @ evs2"
          by (auto simp: after_Inr)
        from Cons.IH [OF rec] have
          s': "s' = ?s1\<lparr>args := args s'\<rparr>" and le2: "list_all2 arginfo_le (args ?s1) (args s')"
          and tr: "case x of Inl e \<Rightarrow> aborted_by evs2 e
                   | Inr iv' \<Rightarrow> quiet evs2 \<and> (iv' = iv \<or> iv' = 1)"
          by blast+
        from s' have "s' = s\<lparr>args := args s'\<rparr>" by simp
        moreover from le1 le2 have "list_all2 arginfo_le (args s) (args s')" by (rule slots_le_trans)
        moreover from tr hr None evs q0
        have "case x of Inl e \<Rightarrow> aborted_by evs e
              | Inr iv' \<Rightarrow> quiet evs \<and> (iv' = iv \<or> iv' = 1)"
          by (cases x) (simp_all add: aborted_by_append)
        ultimately show ?thesis by blast
      qed
    qed
  qed
qed

section \<open>How a call ends\<close>

text \<open>
  A call that stays clear of undefined behaviour ends aborted or delegated, and changes
  neither \<open>wrapped\<close>, \<open>npos\<close> nor \<open>npos_only\<close>.
\<close>

lemma vectorcall_frame_and_end:
  assumes "statswrapper_vectorcall env s pos kw = Inr r"
  shows "wrapped (self_after r) = wrapped s \<and> npos (self_after r) = npos s
         \<and> npos_only (self_after r) = npos_only s
         \<and> list_all2 arginfo_le (args s) (args (self_after r))
         \<and> (ends_aborted s r \<or> ends_delegated env s pos kw r)"
proof -
  let ?iv = "if int (length pos) > npos s then 1 else 0 :: int"
  let ?as = "take (nat (if int (length pos) > npos s then npos s else int (length pos))) pos"
  from assms obtain s1 x evs1 where p: "pos_loop env s 0 ?as = Inr ((s1, x), evs1)"
    by (cases "pos_loop env s 0 ?as") (auto simp: statswrapper_vectorcall_def Let_def)
  note pr = pos_loop_result [OF p]
  from pr have s1: "s1 = s\<lparr>args := args s1\<rparr>" and le1: "list_all2 arginfo_le (args s) (args s1)"
    by blast+
  show ?thesis
  proof (cases x)
    case (Some e)
    with assms p have r: "r = \<lparr>self_after = s1, ret = None, err = Some e, trace = evs1\<rparr>"
      by (simp add: statswrapper_vectorcall_def Let_def)
    have "wrapped s1 = wrapped s" "npos s1 = npos s" "npos_only s1 = npos_only s"
      "total_calls s1 = total_calls s" "invalid_args s1 = invalid_args s"
      "error_results s1 = error_results s"
      by (subst s1, simp)+
    with r pr Some le1 show ?thesis by (simp add: ends_aborted_def)
  next
    case None
    with assms p obtain s2 y evs2 where k: "kw_loop env s1 ?iv kw = Inr ((s2, y), evs2)"
      by (cases "kw_loop env s1 ?iv kw") (auto simp: statswrapper_vectorcall_def Let_def)
    note kr = kw_loop_result [OF k]
    from kr have s2: "s2 = s1\<lparr>args := args s2\<rparr>" and le2: "list_all2 arginfo_le (args s1) (args s2)"
      by blast+
    from le1 le2 have le: "list_all2 arginfo_le (args s) (args s2)" by (rule slots_le_trans)
    have fr1: "wrapped s1 = wrapped s" "npos s1 = npos s" "npos_only s1 = npos_only s"
      "total_calls s1 = total_calls s" "invalid_args s1 = invalid_args s"
      "error_results s1 = error_results s"
      by (subst s1, simp)+
    have fr2: "wrapped s2 = wrapped s1" "npos s2 = npos s1" "npos_only s2 = npos_only s1"
      "total_calls s2 = total_calls s1" "invalid_args s2 = invalid_args s1"
      "error_results s2 = error_results s1"
      by (subst s2, simp)+
    from pr None have q1: "quiet evs1" by simp
    show ?thesis
    proof (cases y)
      case (Inl e)
      with assms p None k have
        r: "r = \<lparr>self_after = s2, ret = None, err = Some e, trace = evs1 @ evs2\<rparr>"
        by (simp add: statswrapper_vectorcall_def Let_def)
      from kr Inl have "aborted_by evs2 e" by simp
      with q1 have "aborted_by (evs1 @ evs2) e" by (rule aborted_by_append)
      with r fr1 fr2 le show ?thesis by (simp add: ends_aborted_def)
    next
      case (Inr iv')
      with kr have q2: "quiet evs2" and iv': "iv' = ?iv \<or> iv' = 1" by simp_all
      let ?res = "PyObject_Vectorcall env (wrapped s) pos kw"
      let ?tr = "evs1 @ evs2 @ [CallWrapped (wrapped s) pos kw ?res]"
      from assms p None k Inr fr1 fr2
      have "ends_delegated env s pos kw r \<and> self_after r = self_after r\<lparr>args := args s2\<rparr>
            \<and> args (self_after r) = args s2 \<and> wrapped (self_after r) = wrapped s
            \<and> npos (self_after r) = npos s \<and> npos_only (self_after r) = npos_only s"
        using q1 q2 iv'
        by (auto simp: statswrapper_vectorcall_def Let_def ends_delegated_def ssize_incr_def
            ssize_add_def split: sum.splits if_splits)
      with le show ?thesis by simp
    qed
  qed
qed

lemma ends_delegated_harmless:
  assumes "ends_delegated env s pos kw r" and "ev \<in> set (trace r)"
  shows "aborting ev = None"
proof -
  from assms(1) obtain evs where
    "trace r = evs @ [CallWrapped (wrapped s) pos kw (PyObject_Vectorcall env (wrapped s) pos kw)]"
    and "quiet evs"
    by (auto simp: ends_delegated_def Let_def)
  with assms(2) show ?thesis by (auto simp: quiet_def list_all_iff)
qed

lemma vectorcall_aborting_event:
  assumes "statswrapper_vectorcall env s pos kw = Inr r"
    and "ev \<in> set (trace r)" and "aborting ev = Some e"
  shows "ends_aborted s r \<and> err r = Some e \<and> last (trace r) = ev"
proof -
  from vectorcall_frame_and_end [OF assms(1)]
  have "ends_aborted s r \<or> ends_delegated env s pos kw r" by simp
  then show ?thesis
  proof
    assume a: "ends_aborted s r"
    then obtain e' where "err r = Some e'" and "aborted_by (trace r) e'"
      by (auto simp: ends_aborted_def)
    with aborted_by_last [OF this(2) assms(2,3)] a show ?thesis by simp
  next
    assume "ends_delegated env s pos kw r"
    from ends_delegated_harmless [OF this assms(2)] assms(3) show ?thesis by simp
  qed
qed

lemma ends_aborted_no_call: "ends_aborted s r \<Longrightarrow> \<not> list_ex is_call (trace r)"
  by (auto simp: ends_aborted_def dest: aborted_by_no_call)

lemma ends_aborted_filter_call: "ends_aborted s r \<Longrightarrow> filter is_call (trace r) = []"
  using ends_aborted_no_call [of s r] by (auto simp: list_ex_iff filter_empty_conv)

lemma ends_delegated_call:
  assumes "ends_delegated env s pos kw r"
  shows "filter is_call (trace r) =
           [CallWrapped (wrapped s) pos kw (PyObject_Vectorcall env (wrapped s) pos kw)]"
proof -
  from assms obtain evs where
    "trace r = evs @ [CallWrapped (wrapped s) pos kw (PyObject_Vectorcall env (wrapped s) pos kw)]"
    and "quiet evs"
    by (auto simp: ends_delegated_def Let_def)
  then show ?thesis by (simp add: quiet_filter_call)
qed

lemma vectorcall_not_interrupted:
  assumes "statswrapper_vectorcall env s pos kw = Inr r" and "\<not> interrupted (trace r)"
  shows "ends_delegated env s pos kw r"
proof -
  from vectorcall_frame_and_end [OF assms(1)]
  have "ends_aborted s r \<or> ends_delegated env s pos kw r" by simp
  moreover have "\<not> ends_aborted s r"
    using assms(2) by (auto simp: ends_aborted_def dest: aborted_by_interrupted)
  ultimately show ?thesis by simp
qed

lemma vectorcall_interrupted:
  assumes "statswrapper_vectorcall env s pos kw = Inr r" and "interrupted (trace r)"
  shows "ends_aborted s r"
proof -
  from vectorcall_frame_and_end [OF assms(1)]
  have "ends_aborted s r \<or> ends_delegated env s pos kw r" by simp
  moreover have "\<not> ends_delegated env s pos kw r"
  proof
    assume "ends_delegated env s pos kw r"
    then have "\<forall>ev\<in>set (trace r). aborting ev = None" by (blast dest: ends_delegated_harmless)
    with assms(2) show False by (auto simp: interrupted_def list_ex_iff)
  qed
  ultimately show ?thesis by simp
qed

text \<open>
  A call that a known-value comparison ended has incremented the count of a slot: the
  increment of line 32 comes before the comparisons.
\<close>

lemma slots_le_count:
  "list_all2 arginfo_le xs ys \<Longrightarrow> j < length xs \<Longrightarrow> count (xs ! j) \<le> count (ys ! j)"
  by (auto simp: list_all2_conv_all_nth arginfo_le_def)

lemma pos_loop_abort_counts:
  "pos_loop env s i as = Inr ((s', Some e), evs) \<Longrightarrow>
     \<exists>j<length (args s). count (args s ! j) < count (args s' ! j)"
proof (induction as arbitrary: s i evs)
  case Nil
  then show ?case by simp
next
  case (Cons arg rest)
  from Cons.prems have i: "i < length (args s)"
    by (simp split: if_splits)
  with Cons.prems obtain a y evs1 where
    h: "handle_arg_stats env (args s ! i) arg = Inr ((a, y), evs1)"
    by (cases "handle_arg_stats env (args s ! i) arg") auto
  note hr = handle_arg_stats_result [OF h]
  let ?s1 = "s\<lparr>args := (args s)[i := a]\<rparr>"
  show ?case
  proof (cases y)
    case (Some e')
    with Cons.prems i h have "s' = ?s1" by simp
    with hr i show ?thesis by (intro exI [of _ i]) simp
  next
    case None
    with Cons.prems i h obtain evs2 where
      rec: "pos_loop env ?s1 (Suc i) rest = Inr ((s', Some e), evs2)"
      by (auto simp: after_Inr)
    from Cons.IH [OF rec] obtain j where j: "j < length (args s)"
      and lt: "count (args ?s1 ! j) < count (args s' ! j)"
      by auto
    from handle_arg_stats_le [OF h] i
    have "list_all2 arginfo_le (args s) (args ?s1)" by (simp add: slots_le_update)
    from slots_le_count [OF this j] lt j show ?thesis by (intro exI [of _ j]) simp
  qed
qed

lemma kw_equality_scan_names:
  "kw_equality_scan env slots name cur = Inr (r, evs) \<Longrightarrow> \<forall>ev\<in>set evs. \<not> is_known ev"
proof (induction slots arbitrary: cur evs)
  case Nil
  then show ?case by simp
next
  case (Cons a rest)
  show ?case
  proof (cases "kwname a")
    case None
    with Cons.prems show ?thesis by auto
  next
    case (Some k)
    show ?thesis
    proof (cases "PyObject_RichCompareBool env k name")
      case CmpFalse
      with Cons.prems Some obtain evs' where
        rec: "kw_equality_scan env rest name (Suc cur) = Inr (r, evs')"
        and e: "evs = CmpName k name CmpFalse # evs'"
        by (auto simp: Let_def after_Inr)
      from Cons.IH [OF rec] e show ?thesis by simp
    next
      case CmpTrue
      with Cons.prems Some show ?thesis by (auto simp: Let_def)
    next
      case (CmpError x)
      with Cons.prems Some show ?thesis by (auto simp: Let_def)
    qed
  qed
qed

lemma find_kw_names:
  "find_kw env s name = Inr (r, evs) \<Longrightarrow> \<forall>ev\<in>set evs. \<not> is_known ev"
  by (auto simp: find_kw_def Let_def split: if_splits sum.splits dest: kw_equality_scan_names)

lemma aborted_by_nonempty: "aborted_by evs e \<Longrightarrow> evs \<noteq> []"
  by (simp add: aborted_by_def)

lemma kw_loop_abort_counts:
  "kw_loop env s iv kw = Inr ((s', Inl e), evs) \<Longrightarrow> is_known (last evs) \<Longrightarrow>
     \<exists>j<length (args s). count (args s ! j) < count (args s' ! j)"
proof (induction kw arbitrary: s iv evs)
  case Nil
  then show ?case by simp
next
  case (Cons p rest)
  obtain name arg where p: "p = (name, arg)" by (cases p)
  from Cons.prems p obtain r evs0 where f: "find_kw env s name = Inr (r, evs0)"
    by (cases "find_kw env s name") auto
  note fr = find_kw_result [OF f]
  show ?case
  proof (cases r)
    case (Inl e')
    with Cons.prems p f have evs: "evs = evs0" by simp
    from fr Inl have "evs0 \<noteq> []" by (auto dest: aborted_by_nonempty)
    then have "last evs0 \<in> set evs0" by simp
    with find_kw_names [OF f] have "\<not> is_known (last evs0)" by blast
    with Cons.prems(2) evs show ?thesis by simp
  next
    case (Inr cur)
    with fr have cur: "cur < length (args s)" by simp
    show ?thesis
    proof (cases "kwname (args s ! cur) = None")
      case True
      with Cons.prems p f Inr obtain evs2 where
        rec: "kw_loop env s 1 rest = Inr ((s', Inl e), evs2)" and evs: "evs = evs0 @ evs2"
        by (auto simp: after_Inr)
      from kw_loop_result [OF rec] have "evs2 \<noteq> []" by (auto dest: aborted_by_nonempty)
      with evs Cons.prems(2) have "is_known (last evs2)" by simp
      from Cons.IH [OF rec this] show ?thesis .
    next
      case False
      with Cons.prems p f Inr obtain a y evs1 where
        h: "handle_arg_stats env (args s ! cur) arg = Inr ((a, y), evs1)"
        by (cases "handle_arg_stats env (args s ! cur) arg") auto
      note hr = handle_arg_stats_result [OF h]
      let ?s1 = "s\<lparr>args := (args s)[cur := a]\<rparr>"
      show ?thesis
      proof (cases y)
        case (Some e')
        with Cons.prems p f Inr False h have "s' = ?s1" by simp
        with hr cur show ?thesis by (intro exI [of _ cur]) simp
      next
        case None
        with Cons.prems p f Inr False h obtain evs2 where
          rec: "kw_loop env ?s1 iv rest = Inr ((s', Inl e), evs2)"
          and evs: "evs = (evs0 @ evs1) @ evs2"
          by (auto simp: after_Inr)
        from kw_loop_result [OF rec] have "evs2 \<noteq> []" by (auto dest: aborted_by_nonempty)
        with evs Cons.prems(2) have "is_known (last evs2)" by simp
        from Cons.IH [OF rec this] obtain j where j: "j < length (args s)"
          and lt: "count (args ?s1 ! j) < count (args s' ! j)"
          by auto
        from handle_arg_stats_le [OF h] cur
        have "list_all2 arginfo_le (args s) (args ?s1)" by (simp add: slots_le_update)
        from slots_le_count [OF this j] lt j show ?thesis by (intro exI [of _ j]) simp
      qed
    qed
  qed
qed

lemma vectorcall_known_abort_counts:
  assumes "statswrapper_vectorcall env s pos kw = Inr r" and "is_known (last (trace r))"
  shows "\<exists>j<length (args s). count (args s ! j) < count (args (self_after r) ! j)"
proof -
  let ?iv = "if int (length pos) > npos s then 1 else 0 :: int"
  let ?as = "take (nat (if int (length pos) > npos s then npos s else int (length pos))) pos"
  from assms(1) obtain s1 x evs1 where p: "pos_loop env s 0 ?as = Inr ((s1, x), evs1)"
    by (cases "pos_loop env s 0 ?as") (auto simp: statswrapper_vectorcall_def Let_def)
  note pr = pos_loop_result [OF p]
  from pr have le1: "list_all2 arginfo_le (args s) (args s1)" by blast
  show ?thesis
  proof (cases x)
    case (Some e)
    with assms(1) p have "self_after r = s1"
      by (auto simp: statswrapper_vectorcall_def Let_def)
    with pos_loop_abort_counts [of env s 0 ?as s1 e evs1] p Some show ?thesis by simp
  next
    case None
    with assms(1) p obtain s2 y evs2 where k: "kw_loop env s1 ?iv kw = Inr ((s2, y), evs2)"
      by (cases "kw_loop env s1 ?iv kw") (auto simp: statswrapper_vectorcall_def Let_def)
    note kr = kw_loop_result [OF k]
    show ?thesis
    proof (cases y)
      case (Inl e)
      with assms(1) p None k have r: "self_after r = s2" "trace r = evs1 @ evs2"
        by (auto simp: statswrapper_vectorcall_def Let_def)
      from kr Inl have "evs2 \<noteq> []" by (auto dest: aborted_by_nonempty)
      with r assms(2) have "is_known (last evs2)" by simp
      from kw_loop_abort_counts [of env s1 ?iv kw s2 e evs2] k Inl this obtain j where
        j: "j < length (args s1)" and lt: "count (args s1 ! j) < count (args s2 ! j)"
        by auto
      from le1 j have j': "j < length (args s)" by (simp add: list_all2_lengthD)
      from slots_le_count [OF le1 j'] lt r j' show ?thesis by (intro exI [of _ j]) simp
    next
      case (Inr iv')
      with assms(1) p None k have
        "\<exists>evs f res. trace r = evs @ [CallWrapped f pos kw res]"
        by (auto simp: statswrapper_vectorcall_def Let_def split: sum.splits)
      with assms(2) show ?thesis by auto
    qed
  qed
qed

lemma vectorcall_interrupted_facts:
  assumes "statswrapper_vectorcall env s pos kw = Inr r" and "interrupted (trace r)"
  shows "filter is_call (trace r) = [] \<and> ret r = None
         \<and> err r = aborting (last (trace r)) \<and> err r \<noteq> None
         \<and> total_calls (self_after r) = total_calls s
         \<and> invalid_args (self_after r) = invalid_args s
         \<and> error_results (self_after r) = error_results s"
proof -
  from assms have a: "ends_aborted s r" by (rule vectorcall_interrupted)
  then obtain e where "err r = Some e" and "aborted_by (trace r) e"
    by (auto simp: ends_aborted_def)
  then have "err r = aborting (last (trace r)) \<and> err r \<noteq> None"
    by (simp add: aborted_by_def)
  with a ends_aborted_filter_call [OF a] show ?thesis by (auto simp: ends_aborted_def)
qed

section \<open>Calls on well-formed wrappers return\<close>

text \<open>
  On a well-formed wrapper with room in its counters and \<open>npos\<close> no more than the length
  of the array, a call runs into no undefined behaviour. Constructed wrappers are
  well-formed, and stay so.
\<close>

lemma identity_scan_le: "identity_scan ks arg idx \<le> idx + length ks"
proof (induction ks arbitrary: idx)
  case Nil
  then show ?case by simp
next
  case (Cons k ks)
  from Cons.IH [of "Suc idx"] show ?case by simp
qed

lemma equality_scan_le:
  "equality_scan env ks arg idx = (Inr j, evs) \<Longrightarrow> j \<le> idx + length ks"
proof (induction ks arbitrary: idx evs)
  case Nil
  then show ?case by simp
next
  case (Cons k ks)
  show ?case
  proof (cases "PyObject_RichCompareBool env k arg")
    case CmpFalse
    with Cons.prems obtain evs' where "equality_scan env ks arg (Suc idx) = (Inr j, evs')"
      by (cases "equality_scan env ks arg (Suc idx)") (auto simp: Let_def)
    from Cons.IH [OF this] show ?thesis by simp
  next
    case CmpTrue
    with Cons.prems show ?thesis by (auto simp: Let_def)
  next
    case (CmpError e)
    with Cons.prems show ?thesis by (auto simp: Let_def split: if_splits)
  qed
qed

lemma slot_room_Suc: "slot_room (Suc n) a \<Longrightarrow> slot_room n a"
  by (auto simp: slot_room_def list_all_iff)

lemma slot_room_mono: "m \<le> n \<Longrightarrow> slot_room n a \<Longrightarrow> slot_room m a"
  by (auto simp: slot_room_def list_all_iff)

lemma slots_room_mono: "m \<le> n \<Longrightarrow> list_all (slot_room n) xs \<Longrightarrow> list_all (slot_room m) xs"
  by (auto simp: list_all_iff intro: slot_room_mono)

lemma list_all_update:
  "list_all P xs \<Longrightarrow> P a \<Longrightarrow> list_all P (xs[i := a])"
  by (auto simp: list_all_iff dest!: set_update_subset_insert [THEN subsetD])

lemma arginfo_le_wf_slot: "arginfo_le a b \<Longrightarrow> wf_slot a \<Longrightarrow> wf_slot b"
  by (auto simp: arginfo_le_def wf_slot_def dest: list_all2_lengthD split: option.splits)

lemma slots_le_wf_slots:
  "list_all2 arginfo_le xs ys \<Longrightarrow> list_all wf_slot xs \<Longrightarrow> list_all wf_slot ys"
  by (induction rule: list_all2_induct) (auto intro: arginfo_le_wf_slot)

lemma handle_arg_stats_no_fault:
  assumes wf: "wf_slot a" and rm: "slot_room (Suc n) a"
  shows "\<exists>a' x evs. handle_arg_stats env a arg = Inr ((a', x), evs) \<and> slot_room n a'"
proof -
  from rm have c: "count a < PY_SSIZE_T_MAX"
    and pc: "\<forall>v\<in>set (param_counts a). v + 1 + int n \<le> PY_SSIZE_T_MAX"
    by (auto simp: slot_room_def list_all_iff)
  let ?a1 = "a\<lparr>count := count a + 1\<rparr>"
  have r1: "slot_room n ?a1" using rm by (auto simp: slot_room_def list_all_iff)
  show ?thesis
  proof (cases "known_params a")
    case None
    with c r1 show ?thesis by (simp add: handle_arg_stats_def ssize_incr_def)
  next
    case (Some ks)
    with wf have len: "length (param_counts a) = length ks" by (simp add: wf_slot_def)
    obtain res evs where sc:
      "(if identity_scan ks arg 0 = length ks then equality_scan env ks arg 0
        else (Inr (identity_scan ks arg 0), [])) = (res, evs)"
      by (cases "if identity_scan ks arg 0 = length ks then equality_scan env ks arg 0
        else (Inr (identity_scan ks arg 0), [])")
    show ?thesis
    proof (cases res)
      case (Inl e)
      with c Some sc r1 show ?thesis
        by (simp add: handle_arg_stats_def ssize_incr_def Let_def)
    next
      case (Inr idx)
      have "idx \<le> length ks"
      proof (cases "identity_scan ks arg 0 = length ks")
        case True
        with sc Inr have "equality_scan env ks arg 0 = (Inr idx, evs)" by simp
        from equality_scan_le [OF this] show ?thesis by simp
      next
        case False
        with sc Inr have "idx = identity_scan ks arg 0" by simp
        with identity_scan_le [of ks arg 0] show ?thesis by simp
      qed
      show ?thesis
      proof (cases "idx = length ks")
        case True
        with c Some sc Inr r1 show ?thesis
          by (simp add: handle_arg_stats_def ssize_incr_def Let_def)
      next
        case False
        with \<open>idx \<le> length ks\<close> len have i: "idx < length (param_counts a)" by simp
        then have "param_counts a ! idx \<in> set (param_counts a)" by simp
        with pc have v: "param_counts a ! idx + 1 + int n \<le> PY_SSIZE_T_MAX" by blast
        let ?a2 = "?a1\<lparr>param_counts := (param_counts a)[idx := param_counts a ! idx + 1]\<rparr>"
        have "slot_room n ?a2"
          using rm v
          by (auto simp: slot_room_def list_all_iff dest!: set_update_subset_insert [THEN subsetD])
        moreover have "handle_arg_stats env a arg = Inr ((?a2, None), evs)"
          using c Some sc Inr False i v
          by (simp add: handle_arg_stats_def ssize_incr_def Let_def)
        ultimately show ?thesis by blast
      qed
    qed
  qed
qed

lemma pos_loop_no_fault:
  assumes "list_all wf_slot (args s)" and "list_all (slot_room (length as + m)) (args s)"
    and "i + length as \<le> length (args s)"
  shows "\<exists>s' x evs. pos_loop env s i as = Inr ((s', x), evs) \<and> list_all (slot_room m) (args s')"
  using assms
proof (induction as arbitrary: s i)
  case Nil
  then show ?case by simp
next
  case (Cons arg rest)
  from Cons.prems have i: "i < length (args s)" by simp
  with Cons.prems have wfi: "wf_slot (args s ! i)"
    and rmi: "slot_room (Suc (length rest + m)) (args s ! i)"
    by (simp_all add: list_all_length)
  from handle_arg_stats_no_fault [OF wfi rmi] obtain a x evs where
    h: "handle_arg_stats env (args s ! i) arg = Inr ((a, x), evs)"
    and ra: "slot_room (length rest + m) a"
    by blast
  let ?s1 = "s\<lparr>args := (args s)[i := a]\<rparr>"
  from handle_arg_stats_le [OF h] wfi have "wf_slot a" by (rule arginfo_le_wf_slot)
  with Cons.prems have wf1: "list_all wf_slot (args ?s1)" by (simp add: list_all_update)
  from Cons.prems have "list_all (slot_room (length rest + m)) (args s)"
    by (auto intro: slots_room_mono [rotated])
  with ra have rm1: "list_all (slot_room (length rest + m)) (args ?s1)"
    by (simp add: list_all_update)
  show ?case
  proof (cases x)
    case (Some e)
    from rm1 have "list_all (slot_room m) (args ?s1)" by (auto intro: slots_room_mono [rotated])
    with i h Some show ?thesis by simp
  next
    case None
    from Cons.prems have "Suc i + length rest \<le> length (args ?s1)" by simp
    from Cons.IH [OF wf1 rm1 this] obtain s' y evs' where
      "pos_loop env ?s1 (Suc i) rest = Inr ((s', y), evs')" and "list_all (slot_room m) (args s')"
      by blast
    with i h None show ?thesis by (simp add: after_def)
  qed
qed

lemma kw_identity_scan_no_fault:
  "slots \<noteq> [] \<Longrightarrow> kwname (last slots) = None \<Longrightarrow> \<exists>j. kw_identity_scan slots name cur = Inr j"
proof (induction slots arbitrary: cur)
  case Nil
  then show ?case by simp
next
  case (Cons a rest)
  show ?case
  proof (cases "rest = []")
    case True
    with Cons.prems show ?thesis by simp
  next
    case False
    with Cons.prems have "kwname (last rest) = None" by simp
    from Cons.IH [OF False this] show ?thesis by (auto split: option.splits)
  qed
qed

lemma kw_equality_scan_no_fault:
  "slots \<noteq> [] \<Longrightarrow> kwname (last slots) = None \<Longrightarrow>
     \<exists>r evs. kw_equality_scan env slots name cur = Inr (r, evs)"
proof (induction slots arbitrary: cur)
  case Nil
  then show ?case by simp
next
  case (Cons a rest)
  show ?case
  proof (cases "rest = []")
    case True
    with Cons.prems show ?thesis by simp
  next
    case False
    with Cons.prems have "kwname (last rest) = None" by simp
    from Cons.IH [OF False this, of "Suc cur"] obtain r evs where
      "kw_equality_scan env rest name (Suc cur) = Inr (r, evs)" by blast
    then show ?thesis by (auto simp: Let_def after_def split: option.splits)
  qed
qed

lemma find_kw_no_fault:
  assumes "wf_wrapper s"
  shows "\<exists>r evs. find_kw env s name = Inr (r, evs)"
proof -
  let ?first = "nat (npos_only s)"
  let ?slots = "drop ?first (args s)"
  from assms have nn: "\<not> npos_only s < 0" and ne: "?slots \<noteq> []"
    and l: "kwname (last ?slots) = None"
    by (simp_all add: wf_wrapper_def)
  from kw_identity_scan_no_fault [OF ne l] obtain j where
    "kw_identity_scan ?slots name ?first = Inr j" by blast
  with kw_equality_scan_no_fault [OF ne l, of env name ?first] nn show ?thesis
    by (auto simp: find_kw_def Let_def)
qed

lemma wf_wrapper_kwnames:
  "wf_wrapper s =
     (0 \<le> npos_only s \<and> nat (npos_only s) < length (map kwname (args s))
      \<and> last (map kwname (args s)) = None
      \<and> list_all (\<lambda>k. k \<noteq> None) (butlast (drop (nat (npos_only s)) (map kwname (args s))))
      \<and> list_all wf_slot (args s))"
proof (cases "args s = []")
  case True
  then show ?thesis by (simp add: wf_wrapper_def)
next
  case False
  then have "last (map kwname (args s)) = kwname (last (args s))" by (simp add: last_map)
  moreover have "list_all (\<lambda>k. k \<noteq> None) (butlast (drop (nat (npos_only s)) (map kwname (args s))))
    = list_all (\<lambda>a. kwname a \<noteq> None) (butlast (drop (nat (npos_only s)) (args s)))"
  proof -
    have "butlast (drop (nat (npos_only s)) (map kwname (args s)))
          = map kwname (butlast (drop (nat (npos_only s)) (args s)))"
      by (simp add: drop_map map_butlast)
    then show ?thesis by (simp add: list_all_iff)
  qed
  ultimately show ?thesis by (simp add: wf_wrapper_def)
qed

lemma wf_wrapper_le:
  assumes "wf_wrapper s" and "list_all2 arginfo_le (args s) slots"
  shows "wf_wrapper (s\<lparr>args := slots\<rparr>)"
  using assms slots_le_kwnames [OF assms(2)] slots_le_wf_slots [OF assms(2)]
  by (simp add: wf_wrapper_kwnames)

lemma kw_loop_no_fault:
  assumes "wf_wrapper s" and "list_all (slot_room (length kw + m)) (args s)"
  shows "\<exists>s' x evs. kw_loop env s iv kw = Inr ((s', x), evs) \<and> list_all (slot_room m) (args s')"
  using assms
proof (induction kw arbitrary: s iv)
  case Nil
  then show ?case by simp
next
  case (Cons p rest)
  obtain name arg where p: "p = (name, arg)" by (cases p)
  from find_kw_no_fault [OF Cons.prems(1)] obtain r evs0 where
    f: "find_kw env s name = Inr (r, evs0)" by blast
  from Cons.prems have rm: "list_all (slot_room (length rest + m)) (args s)"
    by (auto intro: slots_room_mono [rotated])
  show ?case
  proof (cases r)
    case (Inl e)
    from rm have "list_all (slot_room m) (args s)" by (auto intro: slots_room_mono [rotated])
    with p f Inl show ?thesis by simp
  next
    case (Inr cur)
    with find_kw_result [OF f] have cur: "cur < length (args s)" by simp
    show ?thesis
    proof (cases "kwname (args s ! cur) = None")
      case True
      from Cons.IH [OF Cons.prems(1) rm, of 1] p f Inr True show ?thesis
        by (auto simp: after_def)
    next
      case False
      from Cons.prems cur have wfi: "wf_slot (args s ! cur)"
        and rmi: "slot_room (Suc (length rest + m)) (args s ! cur)"
        by (simp_all add: wf_wrapper_def list_all_length)
      from handle_arg_stats_no_fault [OF wfi rmi] obtain a x evs where
        h: "handle_arg_stats env (args s ! cur) arg = Inr ((a, x), evs)"
        and ra: "slot_room (length rest + m) a"
        by blast
      let ?s1 = "s\<lparr>args := (args s)[cur := a]\<rparr>"
      from handle_arg_stats_le [OF h] cur
      have "list_all2 arginfo_le (args s) ((args s)[cur := a])" by (simp add: slots_le_update)
      with Cons.prems(1) have wf1: "wf_wrapper ?s1" by (rule wf_wrapper_le)
      from rm ra have rm1: "list_all (slot_room (length rest + m)) (args ?s1)"
        by (simp add: list_all_update)
      show ?thesis
      proof (cases x)
        case (Some e)
        from rm1 have "list_all (slot_room m) (args ?s1)" by (auto intro: slots_room_mono [rotated])
        with p f Inr False h Some show ?thesis by simp
      next
        case None
        from Cons.IH [OF wf1 rm1, of iv] p f Inr False h None show ?thesis
          by (auto simp: after_def)
      qed
    qed
  qed
qed

lemma vectorcall_no_fault:
  assumes wf: "wf_wrapper s" and rm: "room (length pos + length kw) s"
    and bd: "npos s \<le> Py_SIZE s"
  shows "\<exists>r. statswrapper_vectorcall env s pos kw = Inr r"
proof -
  let ?iv = "if int (length pos) > npos s then 1 else 0 :: int"
  let ?as = "take (nat (if int (length pos) > npos s then npos s else int (length pos))) pos"
  from wf have wfs: "list_all wf_slot (args s)" by (simp add: wf_wrapper_def)
  from rm have rms: "list_all (slot_room (length ?as + length kw)) (args s)"
    by (auto simp: room_def intro: slots_room_mono [rotated])
  from bd have "0 + length ?as \<le> length (args s)" by (auto simp: Py_SIZE_def)
  from pos_loop_no_fault [OF wfs rms this] obtain s1 x evs1 where
    p: "pos_loop env s 0 ?as = Inr ((s1, x), evs1)"
    and rm1: "list_all (slot_room (length kw)) (args s1)"
    by blast
  from pos_loop_result [OF p] have s1: "s1 = s\<lparr>args := args s1\<rparr>"
    and le1: "list_all2 arginfo_le (args s) (args s1)"
    by blast+
  from wf le1 have "wf_wrapper (s\<lparr>args := args s1\<rparr>)" by (rule wf_wrapper_le)
  with s1 have wf1: "wf_wrapper s1" by simp
  show ?thesis
  proof (cases x)
    case (Some e)
    with p show ?thesis by (simp add: statswrapper_vectorcall_def Let_def)
  next
    case None
    from rm1 have "list_all (slot_room (length kw + 0)) (args s1)" by simp
    from kw_loop_no_fault [OF wf1 this, of env ?iv] obtain s2 y evs2 where
      k: "kw_loop env s1 ?iv kw = Inr ((s2, y), evs2)" by blast
    from kw_loop_result [OF k] have s2: "s2 = s1\<lparr>args := args s2\<rparr>" by blast
    have fr: "total_calls s2 = total_calls s" "invalid_args s2 = invalid_args s"
      "error_results s2 = error_results s"
      by (subst s2, subst s1, simp)+
    show ?thesis
    proof (cases y)
      case (Inl e)
      with p None k show ?thesis by (simp add: statswrapper_vectorcall_def Let_def)
    next
      case (Inr iv')
      with kw_loop_result [OF k] have "iv' = ?iv \<or> iv' = 1" by simp
      then have "iv' = 0 \<or> iv' = 1" by (auto split: if_splits)
      with p None k Inr rm fr show ?thesis
        by (auto simp: statswrapper_vectorcall_def Let_def room_def ssize_incr_def ssize_add_def
            PY_SSIZE_T_MAX_def split: sum.splits)
    qed
  qed
qed

lemma fill_args_length: "fill_args env i specs = Inr slots \<Longrightarrow> length slots = length specs"
proof (induction specs arbitrary: i slots)
  case Nil
  then show ?case by simp
next
  case (Cons p specs)
  obtain name spec where p: "p = (name, spec)" by (cases p)
  from Cons.prems p obtain rest where
    "fill_args env (Suc i) specs = Inr rest" and "length slots = Suc (length rest)"
    by (cases "fill_args env (Suc i) specs")
      (auto simp: Let_def split: if_splits option.splits)
  with Cons.IH show ?case by simp
qed

lemma fill_args_slots:
  "fill_args env i items = Inr slots \<Longrightarrow>
     map kwname slots = map (\<lambda>p. map_option (PyUnicode_InternInPlace env) (fst p)) items
     \<and> list_all wf_slot slots
     \<and> list_all (\<lambda>a. count a = 0 \<and> list_all (\<lambda>c. c = 0) (param_counts a)) slots"
proof (induction items arbitrary: i slots)
  case Nil
  then show ?case by simp
next
  case (Cons p items)
  obtain name spec where p: "p = (name, spec)" by (cases p)
  from Cons.prems p obtain a rest where
    rest: "fill_args env (Suc i) items = Inr rest" and slots: "slots = a # rest"
    and a: "kwname a = map_option (PyUnicode_InternInPlace env) name" "wf_slot a"
      "count a = 0" "list_all (\<lambda>c. c = 0) (param_counts a)"
    by (cases "fill_args env (Suc i) items")
      (auto simp: Let_def wf_slot_def list_all_iff split: if_splits option.splits)
  from Cons.IH [OF rest] slots a p show ?case by simp
qed

lemma create_wf:
  assumes "stats_wrapper_create env cpos ckw = Inr s"
  shows "wf_wrapper s \<and> npos s \<le> Py_SIZE s"
    and "int n < PY_SSIZE_T_MAX \<Longrightarrow> room n s"
proof -
  from assms obtain callee specs where cpos: "cpos = callee # specs"
    by (cases cpos) (auto simp: stats_wrapper_create_def)
  let ?items = "map (Pair None) specs @ map (\<lambda>(name, spec). (Some name, spec)) ckw"
  let ?zero = "\<lparr>kwname = None, known_params = None, count = 0, param_counts = []\<rparr>"
  from assms cpos obtain slots where f: "fill_args env 0 ?items = Inr slots"
    by (cases "fill_args env 0 ?items")
      (auto simp: stats_wrapper_create_def Let_def split: if_splits)
  from assms cpos f have s: "args s = slots @ [?zero]" "npos_only s = int (length specs)"
    "npos s = int (length specs + length ckw)" "total_calls s = 0" "invalid_args s = 0"
    "error_results s = 0"
    by (auto simp: stats_wrapper_create_def Let_def split: if_splits)
  note fs = fill_args_slots [OF f]
  from fill_args_length [OF f] have len: "length slots = length specs + length ckw"
    by simp
  let ?names = "map (\<lambda>p. Some (PyUnicode_InternInPlace env (fst p))) ckw"
  have "map (\<lambda>p. map_option (PyUnicode_InternInPlace env) (fst p)) ?items =
        replicate (length specs) None @ ?names"
    by (simp add: comp_def map_replicate_const case_prod_beta)
  with fs have kn: "map kwname (args s) = replicate (length specs) None @ ?names @ [None]"
    by (simp add: s)
  have d: "drop (length specs) (replicate (length specs) None @ ?names @ [None])
           = ?names @ [None]"
    by simp
  have wfz: "wf_slot ?zero" by (simp add: wf_slot_def)
  have "list_all (\<lambda>k. k \<noteq> None) ?names" by (simp add: list_all_iff)
  with fs wfz s len show "wf_wrapper s \<and> npos s \<le> Py_SIZE s"
    unfolding wf_wrapper_kwnames kn by (simp add: d butlast_append Py_SIZE_def)
  assume "int n < PY_SSIZE_T_MAX"
  moreover from fs have "\<forall>a\<in>set slots. count a = 0 \<and> (\<forall>c\<in>set (param_counts a). c = 0)"
    by (simp add: list_all_iff)
  ultimately show "room n s"
    using s by (fastforce simp: room_def slot_room_def list_all_iff PY_SSIZE_T_MAX_def)
qed

lemma run_wf: "wf_wrapper s \<Longrightarrow> run env s ops = Inr s' \<Longrightarrow> wf_wrapper s'"
proof (induction ops arbitrary: s)
  case Nil
  then show ?case by simp
next
  case (Cons op ops)
  show ?case
  proof (cases op)
    case (Invoke pos kw)
    with Cons.prems obtain r where
      v: "statswrapper_vectorcall env s pos kw = Inr r" and rest: "run env (self_after r) ops = Inr s'"
      by (cases "statswrapper_vectorcall env s pos kw") auto
    from vectorcall_frame_and_end [OF v] slots_le_kwnames [of "args s" "args (self_after r)"]
      slots_le_wf_slots [of "args s" "args (self_after r)"] Cons.prems(1)
    have "wf_wrapper (self_after r)" by (simp add: wf_wrapper_kwnames)
    from Cons.IH [OF this rest] show ?thesis .
  next
    case (SetNpos arg)
    with Cons.prems have
      rest: "run env (self_after (statswrapper__set_npos env s arg)) ops = Inr s'" by simp
    from Cons.prems(1) have "wf_wrapper (self_after (statswrapper__set_npos env s arg))"
      by (auto simp: statswrapper__set_npos_def wf_wrapper_def split: sum.splits)
    from Cons.IH [OF this rest] show ?thesis .
  qed
qed

section \<open>The slots after a call\<close>

text \<open>
  After a call that no comparison ended, slot \<open>j\<close> is what \<^verbatim>\<open>handle_arg_stats\<close> makes of
  it for the positional argument \<open>j\<close>, if \<open>j\<close> is below \<open>npos\<close> and the number of positional
  arguments, and then for the values of the keywords counted for it, in their order;
  \<open>invalid_args\<close> has grown by one exactly if there were more than \<open>npos\<close> positional
  arguments or a keyword counted for no slot.
\<close>

lemma classify_all_append:
  "classify_all env a (xs @ ys) =
     (case classify_all env a xs of None \<Rightarrow> None | Some a' \<Rightarrow> classify_all env a' ys)"
  by (induction xs arbitrary: a) (auto split: sum.splits option.splits prod.splits)

lemma classify_all_two_count:
  assumes "classify_all env a [x, y] = Some a'"
  shows "count a' = count a + 2"
proof -
  from assms obtain a1 evs1 where h1: "handle_arg_stats env a x = Inr ((a1, None), evs1)"
    and c: "classify_all env a1 [y] = Some a'"
    by (auto split: sum.splits option.splits prod.splits)
  from c obtain evs2 where h2: "handle_arg_stats env a1 y = Inr ((a', None), evs2)"
    by (auto split: sum.splits option.splits prod.splits)
  from handle_arg_stats_result [OF h1] handle_arg_stats_result [OF h2] show ?thesis by simp
qed

lemma kw_identity_scan_cong:
  "map kwname xs = map kwname ys \<Longrightarrow> kw_identity_scan xs name cur = kw_identity_scan ys name cur"
proof (induction xs arbitrary: ys cur)
  case Nil
  then show ?case by simp
next
  case (Cons a xs)
  then obtain b ys' where ys: "ys = b # ys'" by (cases ys) auto
  with Cons.prems have "kwname a = kwname b" and "map kwname xs = map kwname ys'" by simp_all
  with Cons.IH [of ys' "Suc cur"] ys show ?case by (simp split: option.splits)
qed

lemma kw_equality_scan_cong:
  "map kwname xs = map kwname ys \<Longrightarrow>
     kw_equality_scan env xs name cur = kw_equality_scan env ys name cur"
proof (induction xs arbitrary: ys cur)
  case Nil
  then show ?case by simp
next
  case (Cons a xs)
  then obtain b ys' where ys: "ys = b # ys'" by (cases ys) auto
  with Cons.prems have "kwname a = kwname b" and "map kwname xs = map kwname ys'" by simp_all
  with Cons.IH [of ys' "Suc cur"] ys show ?case by (simp add: Let_def split: option.splits)
qed

lemma find_kw_cong:
  assumes n: "npos_only s' = npos_only s" and k: "map kwname (args s') = map kwname (args s)"
  shows "find_kw env s' name = find_kw env s name"
proof -
  let ?first = "nat (npos_only s)"
  from k have d: "map kwname (drop ?first (args s')) = map kwname (drop ?first (args s))"
    by (simp add: drop_map [symmetric])
  from k have len: "length (args s') = length (args s)" by (rule map_eq_imp_length_eq)
  note id = kw_identity_scan_cong [OF d, of name ?first]
  note eq = kw_equality_scan_cong [OF d, of env name ?first]
  show ?thesis
  proof (cases "kw_identity_scan (drop ?first (args s)) name ?first")
    case (Inl f)
    with id n show ?thesis by (simp add: find_kw_def Let_def)
  next
    case (Inr cur)
    from kw_identity_scan_bound [OF Inr] have c: "cur < length (args s)" by auto
    with len have "kwname (args s' ! cur) = map kwname (args s') ! cur" by simp
    also from k c have "\<dots> = kwname (args s ! cur)" by simp
    finally show ?thesis using Inr id eq n by (simp add: find_kw_def Let_def)
  qed
qed

lemma slot_of_cong:
  assumes n: "npos_only s' = npos_only s" and k: "map kwname (args s') = map kwname (args s)"
  shows "slot_of env s' name = slot_of env s name"
proof (cases "find_kw env s name")
  case (Inl f)
  with find_kw_cong [OF n k, of env name] show ?thesis by (simp add: slot_of_def)
next
  case (Inr p)
  obtain r evs where p: "p = (r, evs)" by (cases p)
  show ?thesis
  proof (cases r)
    case (Inl e)
    with Inr p find_kw_cong [OF n k, of env name] show ?thesis by (simp add: slot_of_def)
  next
    case (Inr cur)
    with \<open>find_kw env s name = Inr p\<close> p have f: "find_kw env s name = Inr (Inr cur, evs)" by simp
    from find_kw_result [OF f] have c: "cur < length (args s)" by simp
    from k have len: "length (args s') = length (args s)" by (rule map_eq_imp_length_eq)
    with c have "kwname (args s' ! cur) = map kwname (args s') ! cur" by simp
    also from k c have "\<dots> = kwname (args s ! cur)" by simp
    finally show ?thesis using f find_kw_cong [OF n k, of env name] by (simp add: slot_of_def)
  qed
qed

lemma slot_of_bound:
  assumes "slot_of env s name = Some i"
  shows "npos_only s \<le> int i \<and> i < length (args s) \<and> kwname (args s ! i) \<noteq> None"
proof -
  from assms obtain evs where f: "find_kw env s name = Inr (Inr i, evs)"
    and k: "kwname (args s ! i) \<noteq> None"
    by (auto simp: slot_of_def split: sum.splits prod.splits if_splits)
  let ?first = "nat (npos_only s)"
  let ?slots = "drop ?first (args s)"
  from f have nn: "\<not> npos_only s < 0" by (auto simp: find_kw_def split: if_splits)
  with f obtain cur where id: "kw_identity_scan ?slots name ?first = Inr cur"
    by (cases "kw_identity_scan ?slots name ?first") (auto simp: find_kw_def Let_def)
  have "?first \<le> i"
  proof (cases "kwname (args s ! cur) = None")
    case True
    with f nn id have "kw_equality_scan env ?slots name ?first = Inr (Inr i, evs)"
      by (simp add: find_kw_def Let_def)
    from kw_equality_scan_result [OF this] show ?thesis by simp
  next
    case False
    with f nn id have "i = cur" by (simp add: find_kw_def Let_def)
    with kw_identity_scan_bound [OF id] show ?thesis by simp
  qed
  with nn find_kw_result [OF f] k show ?thesis by auto
qed

lemma pos_loop_slots:
  "pos_loop env s i as = Inr ((s', None), evs) \<Longrightarrow> j < length (args s) \<Longrightarrow>
     Some (args s' ! j) =
       classify_all env (args s ! j) (if i \<le> j \<and> j < i + length as then [as ! (j - i)] else [])"
proof (induction as arbitrary: s i evs)
  case Nil
  then show ?case by auto
next
  case (Cons arg rest)
  from Cons.prems have i: "i < length (args s)"
    by (simp split: if_splits)
  with Cons.prems obtain a y evs1 where
    h: "handle_arg_stats env (args s ! i) arg = Inr ((a, y), evs1)"
    by (cases "handle_arg_stats env (args s ! i) arg") auto
  let ?s1 = "s\<lparr>args := (args s)[i := a]\<rparr>"
  from Cons.prems i h have y: "y = None" by (cases y) auto
  with Cons.prems i h obtain evs2 where
    rec: "pos_loop env ?s1 (Suc i) rest = Inr ((s', None), evs2)"
    by (auto simp: after_Inr)
  from Cons.prems have "j < length (args ?s1)" by simp
  note ih = Cons.IH [OF rec this]
  show ?case
  proof (cases "j = i")
    case True
    with ih i h y show ?thesis by simp
  next
    case False
    then have "(i \<le> j \<and> j < i + length (arg # rest)) = (Suc i \<le> j \<and> j < Suc i + length rest)"
      by auto
    moreover from False have "Suc i \<le> j \<Longrightarrow> (arg # rest) ! (j - i) = rest ! (j - Suc i)"
      by (simp add: Suc_diff_Suc)
    ultimately show ?thesis using ih False by auto
  qed
qed

lemma kw_loop_slots:
  "kw_loop env s iv kw = Inr ((s', Inr iv'), evs) \<Longrightarrow>
     (j < length (args s) \<longrightarrow>
        Some (args s' ! j) =
          classify_all env (args s ! j)
            (map snd (filter (\<lambda>p. slot_of env s (fst p) = Some j) kw)))
     \<and> iv' = (if list_ex (\<lambda>p. slot_of env s (fst p) = None) kw then 1 else iv)"
proof (induction kw arbitrary: s iv evs)
  case Nil
  then show ?case by simp
next
  case (Cons p rest)
  obtain name arg where p: "p = (name, arg)" by (cases p)
  from Cons.prems p obtain r evs0 where f: "find_kw env s name = Inr (r, evs0)"
    by (cases "find_kw env s name") auto
  from Cons.prems p f obtain cur where r: "r = Inr cur" by (cases r) auto
  with find_kw_result [OF f] have cur: "cur < length (args s)" by simp
  show ?case
  proof (cases "kwname (args s ! cur) = None")
    case True
    with f r have so: "slot_of env s name = None" by (simp add: slot_of_def)
    from Cons.prems p f r True obtain evs2 where
      rec: "kw_loop env s 1 rest = Inr ((s', Inr iv'), evs2)"
      by (auto simp: after_Inr)
    from Cons.IH [OF rec] so p show ?thesis by simp
  next
    case False
    with f r have so: "slot_of env s name = Some cur" by (simp add: slot_of_def)
    from Cons.prems p f r False obtain a y evs1 where
      h: "handle_arg_stats env (args s ! cur) arg = Inr ((a, y), evs1)"
      by (cases "handle_arg_stats env (args s ! cur) arg") auto
    let ?s1 = "s\<lparr>args := (args s)[cur := a]\<rparr>"
    from Cons.prems p f r False h have y: "y = None" by (cases y) auto
    with Cons.prems p f r False h obtain evs2 where
      rec: "kw_loop env ?s1 iv rest = Inr ((s', Inr iv'), evs2)"
      by (auto simp: after_Inr)
    from handle_arg_stats_le [OF h] cur
    have "list_all2 arginfo_le (args s) (args ?s1)" by (simp add: slots_le_update)
    then have "map kwname (args ?s1) = map kwname (args s)" by (rule slots_le_kwnames)
    then have so1: "\<And>n. slot_of env ?s1 n = slot_of env s n"
      by (intro slot_of_cong) simp_all
    note ih = Cons.IH [OF rec, unfolded so1]
    show ?thesis
    proof (cases "j = cur")
      case True
      with ih so p h y cur show ?thesis by simp
    next
      case False
      with ih so p show ?thesis by simp
    qed
  qed
qed

lemma vectorcall_loops:
  assumes "statswrapper_vectorcall env s pos kw = Inr r" and "\<not> interrupted (trace r)"
  shows "\<exists>s1 evs1 s2 iv evs2.
           pos_loop env s 0 (take (nat (min (int (length pos)) (npos s))) pos)
             = Inr ((s1, None), evs1)
           \<and> kw_loop env s1 (if npos s < int (length pos) then 1 else 0) kw
             = Inr ((s2, Inr iv), evs2)
           \<and> args (self_after r) = args s2
           \<and> invalid_args (self_after r) = invalid_args s + iv"
proof -
  let ?iv = "if int (length pos) > npos s then 1 else 0 :: int"
  let ?as = "take (nat (if int (length pos) > npos s then npos s else int (length pos))) pos"
  have as: "?as = take (nat (min (int (length pos)) (npos s))) pos" by (simp add: min_def)
  from assms obtain s1 x evs1 where p: "pos_loop env s 0 ?as = Inr ((s1, x), evs1)"
    by (cases "pos_loop env s 0 ?as") (auto simp: statswrapper_vectorcall_def Let_def)
  note pr = pos_loop_result [OF p]
  from pr have s1: "s1 = s\<lparr>args := args s1\<rparr>" by blast
  have x: "x = None"
  proof (cases x)
    case (Some e)
    with assms p have "trace r = evs1" by (auto simp: statswrapper_vectorcall_def Let_def)
    with pr Some assms(2) show ?thesis by (auto dest: aborted_by_interrupted)
  qed simp
  with assms p obtain s2 y evs2 where k: "kw_loop env s1 ?iv kw = Inr ((s2, y), evs2)"
    by (cases "kw_loop env s1 ?iv kw") (auto simp: statswrapper_vectorcall_def Let_def)
  note kr = kw_loop_result [OF k]
  from kr have s2: "s2 = s1\<lparr>args := args s2\<rparr>" by blast
  have fr: "invalid_args s2 = invalid_args s"
    by (subst s2, subst s1, simp)
  obtain iv where y: "y = Inr iv"
  proof (cases y)
    case (Inl e)
    with assms p x k have "trace r = evs1 @ evs2"
      by (auto simp: statswrapper_vectorcall_def Let_def)
    with kr Inl assms(2) have False by (auto dest: aborted_by_interrupted)
    then show ?thesis ..
  qed
  from assms(1) p x k y fr
  have "args (self_after r) = args s2 \<and> invalid_args (self_after r) = invalid_args s + iv"
    by (auto simp: statswrapper_vectorcall_def Let_def ssize_incr_def ssize_add_def
        split: sum.splits if_splits)
  with p x k y as show ?thesis by auto
qed

lemma vectorcall_classification:
  assumes "statswrapper_vectorcall env s pos kw = Inr r" and "\<not> interrupted (trace r)"
  shows "invalid_args (self_after r) = invalid_args s +
           (if npos s < int (length pos) \<or> list_ex (\<lambda>p. slot_of env s (fst p) = None) kw
            then 1 else 0)"
    and "j < length (args s) \<Longrightarrow>
           Some (args (self_after r) ! j) =
             classify_all env (args s ! j)
               ((if int j < npos s \<and> j < length pos then [pos ! j] else [])
                @ map snd (filter (\<lambda>p. slot_of env s (fst p) = Some j) kw))"
proof -
  let ?n = "nat (min (int (length pos)) (npos s))"
  from vectorcall_loops [OF assms] obtain s1 evs1 s2 iv evs2 where
    p: "pos_loop env s 0 (take ?n pos) = Inr ((s1, None), evs1)"
    and k: "kw_loop env s1 (if npos s < int (length pos) then 1 else 0) kw
            = Inr ((s2, Inr iv), evs2)"
    and a: "args (self_after r) = args s2"
    and i: "invalid_args (self_after r) = invalid_args s + iv"
    by blast
  from pos_loop_result [OF p] have s1: "s1 = s\<lparr>args := args s1\<rparr>"
    and le1: "list_all2 arginfo_le (args s) (args s1)"
    by blast+
  have n1: "npos_only s1 = npos_only s" by (subst s1) simp
  from le1 have k1: "map kwname (args s1) = map kwname (args s)" by (rule slots_le_kwnames)
  from le1 have len1: "length (args s1) = length (args s)" by (simp add: list_all2_lengthD)
  have so: "\<And>n. slot_of env s1 n = slot_of env s n"
    using n1 k1 by (rule slot_of_cong)
  note ks = kw_loop_slots [OF k, of j, unfolded so]
  from ks have flag: "iv = (if list_ex (\<lambda>p. slot_of env s (fst p) = None) kw then 1
                    else if npos s < int (length pos) then 1 else 0)"
    by simp
  with i show "invalid_args (self_after r) = invalid_args s +
           (if npos s < int (length pos) \<or> list_ex (\<lambda>p. slot_of env s (fst p) = None) kw
            then 1 else 0)"
    by auto
  assume j: "j < length (args s)"
  have pj: "(0 \<le> j \<and> j < 0 + length (take ?n pos)) = (int j < npos s \<and> j < length pos)"
    by auto
  have tj: "int j < npos s \<and> j < length pos \<Longrightarrow> take ?n pos ! (j - 0) = pos ! j"
    by auto
  from pos_loop_slots [OF p j] pj tj
  have c1: "classify_all env (args s ! j)
              (if int j < npos s \<and> j < length pos then [pos ! j] else []) = Some (args s1 ! j)"
    by (auto simp del: classify_all.simps)
  from j len1 have "j < length (args s1)" by simp
  with ks a
  have c2: "Some (args (self_after r) ! j) =
        classify_all env (args s1 ! j) (map snd (filter (\<lambda>p. slot_of env s (fst p) = Some j) kw))"
    by simp
  show "Some (args (self_after r) ! j) =
             classify_all env (args s ! j)
               ((if int j < npos s \<and> j < length pos then [pos ! j] else [])
                @ map snd (filter (\<lambda>p. slot_of env s (fst p) = Some j) kw))"
    unfolding classify_all_append c1 using c2 by simp
qed

section \<open>The searches of the code and of the specification\<close>

text \<open>
  Where no comparison fails, the two loops over the names find the slot that the
  specification's search finds, and the two loops over the known values the index that
  the specification's matching finds.
\<close>

lemma first_where_Some:
  "first_where P xs i = Some j \<Longrightarrow> i \<le> j \<and> j < i + length xs \<and> P (xs ! (j - i))"
proof (induction xs arbitrary: i)
  case Nil
  then show ?case by simp
next
  case (Cons x xs)
  show ?case
  proof (cases "P x")
    case True
    with Cons.prems show ?thesis by simp
  next
    case False
    with Cons.prems have "first_where P xs (Suc i) = Some j" by simp
    from Cons.IH [OF this] show ?thesis by (auto simp: Suc_diff_Suc)
  qed
qed

lemma kw_identity_scan_named:
  "list_all (\<lambda>a. kwname a \<noteq> None) named \<Longrightarrow> kwname t = None \<Longrightarrow>
     kw_identity_scan (named @ [t]) name cur =
       Inr (case first_where (\<lambda>a. kwname a = Some name) named cur of
              Some i \<Rightarrow> i | None \<Rightarrow> cur + length named)"
proof (induction named arbitrary: cur)
  case Nil
  then show ?case by simp
next
  case (Cons a named)
  from Cons.prems obtain k where k: "kwname a = Some k" by auto
  from Cons.prems have "list_all (\<lambda>a. kwname a \<noteq> None) named" by simp
  from Cons.IH [OF this Cons.prems(2), of "Suc cur"] k show ?case
    by (auto split: option.splits)
qed

lemma kw_equality_scan_named:
  assumes "list_all (\<lambda>a. kwname a \<noteq> None) named" and "kwname t = None"
    and "\<forall>a\<in>set named. \<forall>k. kwname a = Some k \<longrightarrow>
           failed (PyObject_RichCompareBool env k name) = None"
  shows "\<exists>evs. kw_equality_scan env (named @ [t]) name cur =
       Inr (Inr (case first_where
                        (\<lambda>a. case kwname a of
                               None \<Rightarrow> False
                             | Some k \<Rightarrow> PyObject_RichCompareBool env k name = CmpTrue)
                        named cur of
                   Some i \<Rightarrow> i | None \<Rightarrow> cur + length named), evs)"
  using assms
proof (induction named arbitrary: cur)
  case Nil
  then show ?case by simp
next
  case (Cons a named)
  from Cons.prems obtain k where k: "kwname a = Some k" by auto
  with Cons.prems have nf: "failed (PyObject_RichCompareBool env k name) = None" by simp
  from Cons.prems have "list_all (\<lambda>a. kwname a \<noteq> None) named"
    and "\<forall>a\<in>set named. \<forall>k. kwname a = Some k \<longrightarrow>
           failed (PyObject_RichCompareBool env k name) = None"
    by simp_all
  from Cons.IH [OF this(1) Cons.prems(2) this(2), of "Suc cur"] obtain evs where
    rec: "kw_equality_scan env (named @ [t]) name (Suc cur) =
       Inr (Inr (case first_where
                        (\<lambda>a. case kwname a of
                               None \<Rightarrow> False
                             | Some k \<Rightarrow> PyObject_RichCompareBool env k name = CmpTrue)
                        named (Suc cur) of
                   Some i \<Rightarrow> i | None \<Rightarrow> Suc cur + length named), evs)"
    by blast
  show ?case
  proof (cases "PyObject_RichCompareBool env k name")
    case CmpFalse
    with k rec show ?thesis by (simp add: Let_def after_def split: option.splits)
  next
    case CmpTrue
    with k show ?thesis by (simp add: Let_def)
  next
    case (CmpError e)
    with nf show ?thesis by simp
  qed
qed

lemma find_kw_refines_spec:
  assumes wf: "wf_wrapper s" and nf: "\<not> name_comparison_fails env s name"
  shows "slot_of env s name = spec_find_slot env s name"
proof -
  let ?first = "nat (npos_only s)"
  let ?slots = "drop ?first (args s)"
  let ?named = "butlast ?slots"
  let ?t = "last ?slots"
  let ?P = "\<lambda>a. kwname a = Some name"
  let ?Q = "\<lambda>a. case kwname a of None \<Rightarrow> False
                 | Some k \<Rightarrow> PyObject_RichCompareBool env k name = CmpTrue"
  from wf have nn: "\<not> npos_only s < 0" and lt: "?first < length (args s)"
    and ne: "?slots \<noteq> []" and named: "list_all (\<lambda>a. kwname a \<noteq> None) ?named"
    by (simp_all add: wf_wrapper_def)
  from ne have sl: "?slots = ?named @ [?t]" by (rule append_butlast_last_id [symmetric])
  from wf ne have t: "kwname ?t = None" by (simp add: wf_wrapper_def)
  have len: "?first + length ?named = length (args s) - 1" using lt by simp
  have nth: "\<And>j. ?first \<le> j \<Longrightarrow> j < ?first + length ?named \<Longrightarrow>
               args s ! j = ?named ! (j - ?first)"
  proof -
    fix j
    assume a: "?first \<le> j" and b: "j < ?first + length ?named"
    then have "j - ?first < length ?named" by simp
    then have "?named ! (j - ?first) = ?slots ! (j - ?first)" by (simp add: nth_butlast)
    also from a lt b have "\<dots> = args s ! j" by simp
    finally show "args s ! j = ?named ! (j - ?first)" by simp
  qed
  have last: "args s ! (?first + length ?named) = ?t"
  proof -
    from lt have "args s \<noteq> []" by auto
    then have "args s ! (length (args s) - 1) = last (args s)" by (simp add: last_conv_nth)
    with len lt show ?thesis by simp
  qed
  have id: "kw_identity_scan ?slots name ?first =
       Inr (case first_where ?P ?named ?first of Some i \<Rightarrow> i | None \<Rightarrow> ?first + length ?named)"
    using kw_identity_scan_named [OF named t, of name ?first] sl by simp
  have nf': "\<forall>a\<in>set ?named. \<forall>k. kwname a = Some k \<longrightarrow>
           failed (PyObject_RichCompareBool env k name) = None"
  proof (intro ballI allI impI)
    fix a k
    assume "a \<in> set ?named" and k: "kwname a = Some k"
    then have "a \<in> set (args s)" by (auto dest: in_set_butlastD in_set_dropD)
    with nf k show "failed (PyObject_RichCompareBool env k name) = None"
      by (force simp: name_comparison_fails_def list_ex_iff)
  qed
  from kw_equality_scan_named [OF named t nf', of ?first] sl obtain evs where
    eq: "kw_equality_scan env ?slots name ?first =
       Inr (Inr (case first_where ?Q ?named ?first of
                   Some i \<Rightarrow> i | None \<Rightarrow> ?first + length ?named), evs)"
    by auto
  show ?thesis
  proof (cases "first_where ?P ?named ?first")
    case (Some i)
    from first_where_Some [OF Some] have b: "?first \<le> i" "i < ?first + length ?named"
      and p: "kwname (?named ! (i - ?first)) = Some name" by simp_all
    from nth [OF b] p have "kwname (args s ! i) = Some name" by simp
    with Some id nn show ?thesis
      by (simp add: slot_of_def find_kw_def Let_def spec_find_slot_def)
  next
    case None
    with id last t nn eq have f: "find_kw env s name =
       Inr (Inr (case first_where ?Q ?named ?first of
                   Some i \<Rightarrow> i | None \<Rightarrow> ?first + length ?named), evs)"
      by (simp add: find_kw_def Let_def)
    show ?thesis
    proof (cases "first_where ?Q ?named ?first")
      case (Some i)
      from first_where_Some [OF Some] have b: "?first \<le> i" "i < ?first + length ?named"
        by simp_all
      then have "i - ?first < length ?named" by simp
      then have "?named ! (i - ?first) \<in> set ?named" by simp
      with named have "kwname (?named ! (i - ?first)) \<noteq> None" by (simp add: list_all_iff)
      with nth [OF b] have "kwname (args s ! i) \<noteq> None" by simp
      with f Some None show ?thesis by (simp add: slot_of_def spec_find_slot_def Let_def)
    next
      case None': None
      with f last t None show ?thesis by (simp add: slot_of_def spec_find_slot_def Let_def)
    qed
  qed
qed

lemma identity_scan_first:
  "identity_scan ks arg idx =
     (case first_where (\<lambda>k. k = arg) ks idx of Some j \<Rightarrow> j | None \<Rightarrow> idx + length ks)"
  by (induction ks arbitrary: idx) (auto split: option.splits)

lemma equality_scan_first:
  "\<forall>k\<in>set ks. failed (PyObject_RichCompareBool env k arg) = None \<Longrightarrow>
     \<exists>evs. equality_scan env ks arg idx =
       (Inr (case first_where (\<lambda>k. PyObject_RichCompareBool env k arg = CmpTrue) ks idx of
               Some j \<Rightarrow> j | None \<Rightarrow> idx + length ks), evs)"
proof (induction ks arbitrary: idx)
  case Nil
  then show ?case by simp
next
  case (Cons k ks)
  from Cons.prems have nf: "failed (PyObject_RichCompareBool env k arg) = None"
    and "\<forall>k\<in>set ks. failed (PyObject_RichCompareBool env k arg) = None"
    by simp_all
  from Cons.IH [OF this(2), of "Suc idx"] obtain evs where
    rec: "equality_scan env ks arg (Suc idx) =
       (Inr (case first_where (\<lambda>k. PyObject_RichCompareBool env k arg = CmpTrue) ks (Suc idx) of
               Some j \<Rightarrow> j | None \<Rightarrow> Suc idx + length ks), evs)"
    by blast
  show ?case
  proof (cases "PyObject_RichCompareBool env k arg")
    case CmpFalse
    with rec show ?thesis by (simp add: Let_def split: option.splits)
  next
    case CmpTrue
    then show ?thesis by (simp add: Let_def)
  next
    case (CmpError e)
    with nf show ?thesis by simp
  qed
qed

text \<open>
  When none of the comparisons of the known values with the argument fails,
  \<^verbatim>\<open>handle_arg_stats\<close> increments the count of the slot and the per-value count of the
  index the specification's matching finds, and no per-value count when it finds none.
\<close>

lemma handle_arg_stats_refines_spec:
  assumes ks: "known_params a = Some ks" and wf: "wf_slot a" and rm: "slot_room 1 a"
    and nf: "\<forall>k\<in>set ks. failed (PyObject_RichCompareBool env k arg) = None"
  shows "\<exists>evs. handle_arg_stats env a arg =
           Inr ((a\<lparr>count := count a + 1,
                  param_counts :=
                    (case spec_match env ks arg of
                       None \<Rightarrow> param_counts a
                     | Some j \<Rightarrow> (param_counts a)[j := param_counts a ! j + 1])\<rparr>, None), evs)"
proof -
  from rm have c: "count a < PY_SSIZE_T_MAX"
    and pc: "\<forall>v\<in>set (param_counts a). v < PY_SSIZE_T_MAX"
    by (auto simp: slot_room_def list_all_iff)
  from wf ks have len: "length (param_counts a) = length ks" by (simp add: wf_slot_def)
  have upd: "\<And>j. j < length ks \<Longrightarrow> param_counts a ! j < PY_SSIZE_T_MAX"
    using pc len by simp
  show ?thesis
  proof (cases "first_where (\<lambda>k. k = arg) ks 0")
    case (Some j)
    from first_where_Some [OF Some] have j: "j < length ks" by simp
    with Some have "identity_scan ks arg 0 = j" "identity_scan ks arg 0 \<noteq> length ks"
      by (simp_all add: identity_scan_first)
    with Some c ks j len upd [OF j] show ?thesis
      by (simp add: handle_arg_stats_def ssize_incr_def Let_def spec_match_def)
  next
    case None
    then have id: "identity_scan ks arg 0 = length ks" by (simp add: identity_scan_first)
    from equality_scan_first [OF nf, of 0] obtain evs where
      eq: "equality_scan env ks arg 0 =
       (Inr (case first_where (\<lambda>k. PyObject_RichCompareBool env k arg = CmpTrue) ks 0 of
               Some j \<Rightarrow> j | None \<Rightarrow> 0 + length ks), evs)"
      by blast
    show ?thesis
    proof (cases "first_where (\<lambda>k. PyObject_RichCompareBool env k arg = CmpTrue) ks 0")
      case (Some j)
      from first_where_Some [OF Some] have j: "j < length ks" by simp
      with None Some c ks id eq len upd [OF j] show ?thesis
        by (simp add: handle_arg_stats_def ssize_incr_def Let_def spec_match_def)
    next
      case None': None
      with None c ks id eq show ?thesis
        by (simp add: handle_arg_stats_def ssize_incr_def Let_def spec_match_def)
    qed
  qed
qed

section \<open>The counters along a sequence of operations\<close>

lemma counters_le_refl [simp]: "counters_le s s"
  by (simp add: counters_le_def)

lemma counters_le_trans: "counters_le s t \<Longrightarrow> counters_le t u \<Longrightarrow> counters_le s u"
  unfolding counters_le_def by (auto intro: slots_le_trans)

lemma vectorcall_counters:
  assumes "statswrapper_vectorcall env s pos kw = Inr r"
  shows "counters_le s (self_after r)"
    and "counters_bounded s \<Longrightarrow> counters_bounded (self_after r)"
proof -
  from vectorcall_frame_and_end [OF assms]
  have le: "list_all2 arginfo_le (args s) (args (self_after r))"
    and e: "ends_aborted s r \<or> ends_delegated env s pos kw r" by simp_all
  from e le show "counters_le s (self_after r)"
    by (auto simp: counters_le_def ends_aborted_def ends_delegated_def Let_def split: sum.splits)
  assume "counters_bounded s"
  with e show "counters_bounded (self_after r)"
    by (auto simp: counters_bounded_def ends_aborted_def ends_delegated_def Let_def
        split: sum.splits)
qed

lemma set_npos_counters:
  "counters_le s (self_after (statswrapper__set_npos env s arg))"
  "counters_bounded s \<Longrightarrow> counters_bounded (self_after (statswrapper__set_npos env s arg))"
  by (auto simp: statswrapper__set_npos_def counters_le_def counters_bounded_def split: sum.splits)

lemma run_counters:
  "run env s ops = Inr s' \<Longrightarrow>
     counters_le s s' \<and> (counters_bounded s \<longrightarrow> counters_bounded s')"
proof (induction ops arbitrary: s)
  case Nil
  then show ?case by simp
next
  case (Cons op ops)
  show ?case
  proof (cases op)
    case (Invoke pos kw)
    with Cons.prems obtain r where
      v: "statswrapper_vectorcall env s pos kw = Inr r" and rest: "run env (self_after r) ops = Inr s'"
      by (cases "statswrapper_vectorcall env s pos kw") auto
    from Cons.IH [OF rest] vectorcall_counters [OF v] show ?thesis
      by (blast intro: counters_le_trans)
  next
    case (SetNpos arg)
    with Cons.prems have
      rest: "run env (self_after (statswrapper__set_npos env s arg)) ops = Inr s'" by simp
    from Cons.IH [OF rest] set_npos_counters [of s env arg] show ?thesis
      by (blast intro: counters_le_trans)
  qed
qed

lemma create_counters:
  "stats_wrapper_create env cpos ckw = Inr s \<Longrightarrow>
     total_calls s = 0 \<and> error_results s = 0 \<and> invalid_args s = 0"
  by (auto simp: stats_wrapper_create_def Let_def split: list.splits if_splits sum.splits)

text \<open>
  The value of \<open>npos\<close>: \<open>npos_only\<close> plus the number of keyword specifications at
  construction, unchanged by a call, and whatever integer \<^verbatim>\<open>_set_npos\<close> was given after it.
\<close>

lemma create_npos:
  assumes "stats_wrapper_create env cpos ckw = Inr s"
  shows "npos_only s = int (length cpos) - 1 \<and> npos s = npos_only s + int (length ckw)
         \<and> Py_SIZE s - 1 = npos s"
proof -
  from assms obtain callee specs where cpos: "cpos = callee # specs"
    by (cases cpos) (auto simp: stats_wrapper_create_def)
  let ?items = "map (Pair None) specs @ map (\<lambda>(name, spec). (Some name, spec)) ckw"
  from assms cpos obtain slots where f: "fill_args env 0 ?items = Inr slots"
    by (cases "fill_args env 0 ?items")
      (auto simp: stats_wrapper_create_def Let_def split: if_splits)
  from fill_args_length [OF f] assms cpos f show ?thesis
    by (auto simp: stats_wrapper_create_def Let_def Py_SIZE_def split: if_splits)
qed

lemma vectorcall_keeps_npos:
  assumes "statswrapper_vectorcall env s pos kw = Inr r"
  shows "npos (self_after r) = npos s \<and> npos_only (self_after r) = npos_only s
         \<and> Py_SIZE (self_after r) = Py_SIZE s"
  using vectorcall_frame_and_end [OF assms]
  by (auto simp: Py_SIZE_def dest: list_all2_lengthD)

lemma set_npos_stores:
  "PyLong_AsSsize_t env arg = Inr n \<Longrightarrow>
     npos (self_after (statswrapper__set_npos env self arg)) = n"
  by (simp add: statswrapper__set_npos_def)

text \<open>
  \<^verbatim>\<open>_set_npos\<close> in full: an argument that is no integer leaves the object alone; an
  integer is stored, in range or not, and out of range \<open>ValueError\<close> is left set beside
  the \<^verbatim>\<open>None\<close> that is returned.
\<close>

lemma set_npos_not_an_integer:
  "PyLong_AsSsize_t env arg = Inl e \<Longrightarrow>
     statswrapper__set_npos env s arg = \<lparr>self_after = s, ret = None, err = Some e, trace = []\<rparr>"
  by (simp add: statswrapper__set_npos_def)

lemma set_npos_in_range:
  "PyLong_AsSsize_t env arg = Inr n \<Longrightarrow> npos_only s \<le> n \<Longrightarrow> n \<le> Py_SIZE s - 1 \<Longrightarrow>
     statswrapper__set_npos env s arg =
       \<lparr>self_after = s\<lparr>npos := n\<rparr>, ret = Some Py_None, err = None, trace = []\<rparr>"
  by (simp add: statswrapper__set_npos_def)

lemma set_npos_out_of_range:
  "PyLong_AsSsize_t env arg = Inr n \<Longrightarrow> n < npos_only s \<or> Py_SIZE s - 1 < n \<Longrightarrow>
     statswrapper__set_npos env s arg =
       \<lparr>self_after = s\<lparr>npos := n\<rparr>, ret = Some Py_None, err = Some ValueError, trace = []\<rparr>"
  by (auto simp: statswrapper__set_npos_def)

section \<open>Running the examples\<close>

text \<open>
  The definitions that evaluate a call on the example wrappers, and the two wrappers as
  the factory builds them.
\<close>

lemmas eval_defs = statswrapper_vectorcall_def handle_arg_stats_def find_kw_def after_def
  ssize_incr_def ssize_add_def PY_SSIZE_T_MAX_def plain_interp_def ab_name_wrapper_def

lemmas wf_defs = wf_wrapper_def wf_slot_def room_def slot_room_def Py_SIZE_def
  PY_SSIZE_T_MAX_def ab_name_wrapper_def

lemma create_bare: "stats_wrapper_create plain_interp [Obj 0] [] = Inr bare_wrapper"
  by (simp add: stats_wrapper_create_def plain_interp_def bare_wrapper_def)

lemma create_ab_name:
  "stats_wrapper_create plain_interp [Obj 0, Obj 20] [(Obj 5, Obj 21)] = Inr ab_name_wrapper"
  by (simp add: stats_wrapper_create_def plain_interp_def ab_name_wrapper_def)

text \<open>
  The example of the claim: with the known values \<^verbatim>\<open>("a", "b")\<close>, three calls with \<^verbatim>\<open>"a"\<close>
  and one with \<^verbatim>\<open>"b"\<close> give the per-value counts 3 and 1, and a call with \<^verbatim>\<open>"c"\<close> then
  leaves them and makes the count of the slot 5.
\<close>

lemma known_value_counts_example:
  "run plain_interp ab_name_wrapper
     [Invoke [Obj 1] [], Invoke [Obj 1] [], Invoke [Obj 1] [], Invoke [Obj 2] []] =
     Inr (ab_name_wrapper
           \<lparr>total_calls := 4,
            args := (args ab_name_wrapper)
              [0 := (args ab_name_wrapper ! 0)\<lparr>count := 4, param_counts := [3, 1]\<rparr>]\<rparr>)
   \<and> run plain_interp ab_name_wrapper
     [Invoke [Obj 1] [], Invoke [Obj 1] [], Invoke [Obj 1] [], Invoke [Obj 2] [],
      Invoke [Obj 9] []] =
     Inr (ab_name_wrapper
           \<lparr>total_calls := 5,
            args := (args ab_name_wrapper)
              [0 := (args ab_name_wrapper ! 0)\<lparr>count := 5, param_counts := [3, 1]\<rparr>]\<rparr>)"
  by (simp add: eval_defs)

section \<open>C1: \<^verbatim>\<open>_set_npos\<close> with a value out of range\<close>

text \<open>
  C1. The claim: \<^verbatim>\<open>_set_npos(k)\<close> with \<open>k\<close> below \<open>npos_only\<close> or above the number of
  slots fails and leaves the object as it was. The code sets the exception and then
  stores \<open>k\<close> all the same: on the wrapper \<^verbatim>\<open>stats_wrapper(f)\<close>, which has no slot,
  \<^verbatim>\<open>_set_npos(5)\<close> leaves \<open>ValueError\<close> set, returns \<^verbatim>\<open>None\<close> and has changed \<open>npos\<close>
  from 0 to 5.
\<close>

theorem set_npos_out_of_range_changes_npos:
  "stats_wrapper_create plain_interp [Obj 0] [] = Inr bare_wrapper
   \<and> npos bare_wrapper = 0 \<and> npos_only bare_wrapper = 0 \<and> Py_SIZE bare_wrapper - 1 = 0
   \<and> statswrapper__set_npos plain_interp bare_wrapper (Obj 105) =
       \<lparr>self_after = bare_wrapper\<lparr>npos := 5\<rparr>, ret = Some Py_None, err = Some ValueError,
        trace = []\<rparr>"
  by (simp add: stats_wrapper_create_def statswrapper__set_npos_def plain_interp_def
      bare_wrapper_def Py_SIZE_def)

section \<open>C2: a critical failure of a known-value comparison\<close>

text \<open>
  C2, as amended. Whenever a call (one that stays clear of undefined behaviour) compares
  a known value with an argument and the comparison fails with \<open>RecursionError\<close>,
  \<open>MemoryError\<close> or \<open>KeyboardInterrupt\<close>, that comparison is the last thing the call does:
  it returns \<^verbatim>\<open>NULL\<close> with that exception set, the wrapped callable is not called, and
  \<open>total_calls\<close>, \<open>error_results\<close> and \<open>invalid_args\<close> are what they were. The slot counters
  are not rolled back: none has decreased, and the count of some slot has grown.
\<close>

theorem critical_comparison_aborts:
  assumes "statswrapper_vectorcall env s pos kw = Inr r"
    and "CmpKnown k arg (CmpError e) \<in> set (trace r)"
    and "critical e"
  shows "ret r = None \<and> err r = Some e
         \<and> last (trace r) = CmpKnown k arg (CmpError e)
         \<and> filter is_call (trace r) = []
         \<and> total_calls (self_after r) = total_calls s
         \<and> error_results (self_after r) = error_results s
         \<and> invalid_args (self_after r) = invalid_args s
         \<and> list_all2 arginfo_le (args s) (args (self_after r))
         \<and> (\<exists>j<length (args s). count (args s ! j) < count (args (self_after r) ! j))"
proof -
  from assms(3) have "aborting (CmpKnown k arg (CmpError e)) = Some e" by simp
  from vectorcall_aborting_event [OF assms(1,2) this]
  have a: "ends_aborted s r" and e: "err r = Some e"
    and l: "last (trace r) = CmpKnown k arg (CmpError e)"
    by simp_all
  from a e have "ret r = None \<and> total_calls (self_after r) = total_calls s
      \<and> error_results (self_after r) = error_results s
      \<and> invalid_args (self_after r) = invalid_args s"
    by (auto simp: ends_aborted_def)
  moreover from l have "is_known (last (trace r))" by simp
  from vectorcall_known_abort_counts [OF assms(1) this]
  have "\<exists>j<length (args s). count (args s ! j) < count (args (self_after r) ! j)" .
  ultimately show ?thesis
    using e l ends_aborted_filter_call [OF a] vectorcall_frame_and_end [OF assms(1)] by simp
qed

text \<open>
  The claim as stated fails: on \<^verbatim>\<open>stats_wrapper(f, ("a", "b"), name=("x", "y"))\<close>, a call
  with the one argument \<open>Obj 8\<close> compares \<^verbatim>\<open>"a"\<close> with it, which raises \<open>MemoryError\<close>.
  The call ends there, and the count of slot 0 has gone from 0 to 1 (line 32 comes
  before the comparisons).
\<close>

theorem critical_comparison_counts_slot:
  "statswrapper_vectorcall plain_interp ab_name_wrapper [Obj 8] [] =
     Inr \<lparr>self_after = ab_name_wrapper
            \<lparr>args := (args ab_name_wrapper)[0 := (args ab_name_wrapper ! 0)\<lparr>count := 1\<rparr>]\<rparr>,
          ret = None, err = Some MemoryError,
          trace = [CmpKnown (Obj 1) (Obj 8) (CmpError MemoryError)]\<rparr>
   \<and> critical MemoryError
   \<and> count (args ab_name_wrapper ! 0) = 0
   \<and> count (args (ab_name_wrapper
        \<lparr>args := (args ab_name_wrapper)[0 := (args ab_name_wrapper ! 0)\<lparr>count := 1\<rparr>]\<rparr>) ! 0)
       = 1"
  by (simp add: eval_defs)

theorem critical_comparison_aborts_witness:
  "statswrapper_vectorcall plain_interp ab_name_wrapper [Obj 8] [] =
     Inr \<lparr>self_after = ab_name_wrapper
            \<lparr>args := (args ab_name_wrapper)[0 := (args ab_name_wrapper ! 0)\<lparr>count := 1\<rparr>]\<rparr>,
          ret = None, err = Some MemoryError,
          trace = [CmpKnown (Obj 1) (Obj 8) (CmpError MemoryError)]\<rparr>
   \<and> critical MemoryError
   \<and> total_calls (ab_name_wrapper
        \<lparr>args := (args ab_name_wrapper)[0 := (args ab_name_wrapper ! 0)\<lparr>count := 1\<rparr>]\<rparr>)
       = total_calls ab_name_wrapper"
proof -
  let ?r = "\<lparr>self_after = ab_name_wrapper
            \<lparr>args := (args ab_name_wrapper)[0 := (args ab_name_wrapper ! 0)\<lparr>count := 1\<rparr>]\<rparr>,
          ret = None, err = Some MemoryError,
          trace = [CmpKnown (Obj 1) (Obj 8) (CmpError MemoryError)]\<rparr>"
  have run: "statswrapper_vectorcall plain_interp ab_name_wrapper [Obj 8] [] = Inr ?r"
    by (simp add: eval_defs)
  have ev: "CmpKnown (Obj 1) (Obj 8) (CmpError MemoryError) \<in> set (trace ?r)" by simp
  have crit: "critical MemoryError" by simp
  from critical_comparison_aborts [OF run ev crit] run crit show ?thesis by simp
qed

section \<open>C3: failures of comparisons that are not critical\<close>

text \<open>
  C3, as amended. In a call that stays clear of undefined behaviour: a failure of the
  comparison of a slot's name with a supplied keyword name, whatever the exception, ends
  the call there (\<^verbatim>\<open>NULL\<close> is returned with the exception set, the wrapped callable is
  not called, \<open>total_calls\<close> is unchanged); a failure of a known-value comparison that is
  not critical is cleared and does not end the call: when no name comparison fails and no
  known-value comparison fails critically, the wrapped callable is called, once and with
  the arguments as given, and the call returns what it returned or \<^verbatim>\<open>NULL\<close> with the
  exception it raised, no exception of a comparison left. Which index such a cleared
  comparison counts for is not part of the statement.
\<close>

theorem comparison_failure_recovery:
  assumes "statswrapper_vectorcall env s pos kw = Inr r"
  shows "(\<forall>n k e. CmpName n k (CmpError e) \<in> set (trace r) \<longrightarrow>
            ret r = None \<and> err r = Some e \<and> filter is_call (trace r) = []
            \<and> last (trace r) = CmpName n k (CmpError e)
            \<and> total_calls (self_after r) = total_calls s)
       \<and> ((\<forall>n k e. CmpName n k (CmpError e) \<notin> set (trace r))
            \<and> (\<forall>k a e. CmpKnown k a (CmpError e) \<in> set (trace r) \<longrightarrow> \<not> critical e)
           \<longrightarrow> filter is_call (trace r) =
                [CallWrapped (wrapped s) pos kw (PyObject_Vectorcall env (wrapped s) pos kw)]
              \<and> total_calls (self_after r) = total_calls s + 1
              \<and> (case PyObject_Vectorcall env (wrapped s) pos kw of
                    Inl e \<Rightarrow> ret r = None \<and> err r = Some e
                  | Inr v \<Rightarrow> ret r = Some v \<and> err r = None))"
proof -
  have A: "\<forall>n k e. CmpName n k (CmpError e) \<in> set (trace r) \<longrightarrow>
            ret r = None \<and> err r = Some e \<and> filter is_call (trace r) = []
            \<and> last (trace r) = CmpName n k (CmpError e)
            \<and> total_calls (self_after r) = total_calls s"
  proof (intro allI impI)
    fix n k e
    assume ev: "CmpName n k (CmpError e) \<in> set (trace r)"
    have "aborting (CmpName n k (CmpError e)) = Some e" by simp
    from vectorcall_aborting_event [OF assms ev this]
    have a: "ends_aborted s r" and e: "err r = Some e"
      and l: "last (trace r) = CmpName n k (CmpError e)"
      by simp_all
    from a e l ends_aborted_filter_call [OF a]
    show "ret r = None \<and> err r = Some e \<and> filter is_call (trace r) = []
          \<and> last (trace r) = CmpName n k (CmpError e)
          \<and> total_calls (self_after r) = total_calls s"
      by (auto simp: ends_aborted_def)
  qed
  have B: "(\<forall>n k e. CmpName n k (CmpError e) \<notin> set (trace r))
            \<and> (\<forall>k a e. CmpKnown k a (CmpError e) \<in> set (trace r) \<longrightarrow> \<not> critical e)
           \<longrightarrow> filter is_call (trace r) =
                [CallWrapped (wrapped s) pos kw (PyObject_Vectorcall env (wrapped s) pos kw)]
              \<and> total_calls (self_after r) = total_calls s + 1
              \<and> (case PyObject_Vectorcall env (wrapped s) pos kw of
                    Inl e \<Rightarrow> ret r = None \<and> err r = Some e
                  | Inr v \<Rightarrow> ret r = Some v \<and> err r = None)"
  proof (rule impI)
    assume h: "(\<forall>n k e. CmpName n k (CmpError e) \<notin> set (trace r))
               \<and> (\<forall>k a e. CmpKnown k a (CmpError e) \<in> set (trace r) \<longrightarrow> \<not> critical e)"
    have "\<not> interrupted (trace r)"
    proof
      assume "interrupted (trace r)"
      then obtain ev where ev: "ev \<in> set (trace r)" and ab: "aborting ev \<noteq> None"
        by (auto simp: interrupted_def list_ex_iff)
      show False
      proof (cases ev)
        case (CmpKnown k a c)
        with ab obtain e where "c = CmpError e" and "critical e"
          by (cases c) (auto split: if_splits)
        with CmpKnown ev h show False by blast
      next
        case (CmpName n k c)
        with ab obtain e where "c = CmpError e" by (cases c) auto
        with CmpName ev h show False by blast
      next
        case (CallWrapped f p q res)
        with ab show False by simp
      qed
    qed
    with assms have d: "ends_delegated env s pos kw r" by (rule vectorcall_not_interrupted)
    from d have "total_calls (self_after r) = total_calls s + 1
        \<and> (case PyObject_Vectorcall env (wrapped s) pos kw of
              Inl e \<Rightarrow> ret r = None \<and> err r = Some e
            | Inr v \<Rightarrow> ret r = Some v \<and> err r = None)"
      by (auto simp: ends_delegated_def Let_def split: sum.splits)
    with ends_delegated_call [OF d]
    show "filter is_call (trace r) =
                [CallWrapped (wrapped s) pos kw (PyObject_Vectorcall env (wrapped s) pos kw)]
              \<and> total_calls (self_after r) = total_calls s + 1
              \<and> (case PyObject_Vectorcall env (wrapped s) pos kw of
                    Inl e \<Rightarrow> ret r = None \<and> err r = Some e
                  | Inr v \<Rightarrow> ret r = Some v \<and> err r = None)"
      by simp
  qed
  from A B show ?thesis by (rule conjI)
qed

text \<open>
  The claim as stated fails: on \<^verbatim>\<open>stats_wrapper(f, ("a", "b"), name=("x", "y"))\<close>, a call
  with the argument \<^verbatim>\<open>"a"\<close> and a keyword whose name is \<open>Obj 7\<close> compares \<^verbatim>\<open>"name"\<close> with
  \<open>Obj 7\<close>, which raises \<open>ValueError\<close>, not a critical exception. The call returns \<^verbatim>\<open>NULL\<close>
  and the wrapped callable is never called.
\<close>

theorem name_comparison_failure_aborts:
  "statswrapper_vectorcall plain_interp ab_name_wrapper [Obj 1] [(Obj 7, Obj 3)] =
     Inr \<lparr>self_after = ab_name_wrapper
            \<lparr>args := (args ab_name_wrapper)
               [0 := (args ab_name_wrapper ! 0)\<lparr>count := 1, param_counts := [1, 0]\<rparr>]\<rparr>,
          ret = None, err = Some ValueError,
          trace = [CmpName (Obj 5) (Obj 7) (CmpError ValueError)]\<rparr>
   \<and> \<not> critical ValueError"
  by (simp add: eval_defs)

theorem comparison_failure_recovery_witness:
  "statswrapper_vectorcall plain_interp ab_name_wrapper [Obj 1] [(Obj 7, Obj 3)] =
     Inr \<lparr>self_after = ab_name_wrapper
            \<lparr>args := (args ab_name_wrapper)
               [0 := (args ab_name_wrapper ! 0)\<lparr>count := 1, param_counts := [1, 0]\<rparr>]\<rparr>,
          ret = None, err = Some ValueError,
          trace = [CmpName (Obj 5) (Obj 7) (CmpError ValueError)]\<rparr>
   \<and> statswrapper_vectorcall plain_interp ab_name_wrapper [Obj 7] [] =
     Inr \<lparr>self_after = ab_name_wrapper
            \<lparr>total_calls := 1,
             args := (args ab_name_wrapper)
               [0 := (args ab_name_wrapper ! 0)\<lparr>count := 1, param_counts := [1, 0]\<rparr>]\<rparr>,
          ret = Some (Obj 7), err = None,
          trace = [CmpKnown (Obj 1) (Obj 7) (CmpError ValueError),
                   CallWrapped (Obj 0) [Obj 7] [] (Inr (Obj 7))]\<rparr>
   \<and> \<not> critical ValueError
   \<and> PyObject_Vectorcall plain_interp (wrapped ab_name_wrapper) [Obj 7] [] = Inr (Obj 7)"
proof -
  let ?r1 = "\<lparr>self_after = ab_name_wrapper
            \<lparr>args := (args ab_name_wrapper)
               [0 := (args ab_name_wrapper ! 0)\<lparr>count := 1, param_counts := [1, 0]\<rparr>]\<rparr>,
          ret = None, err = Some ValueError,
          trace = [CmpName (Obj 5) (Obj 7) (CmpError ValueError)]\<rparr>"
  let ?r2 = "\<lparr>self_after = ab_name_wrapper
            \<lparr>total_calls := 1,
             args := (args ab_name_wrapper)
               [0 := (args ab_name_wrapper ! 0)\<lparr>count := 1, param_counts := [1, 0]\<rparr>]\<rparr>,
          ret = Some (Obj 7), err = None,
          trace = [CmpKnown (Obj 1) (Obj 7) (CmpError ValueError),
                   CallWrapped (Obj 0) [Obj 7] [] (Inr (Obj 7))]\<rparr>"
  have run1: "statswrapper_vectorcall plain_interp ab_name_wrapper [Obj 1] [(Obj 7, Obj 3)]
              = Inr ?r1"
    by (simp add: eval_defs)
  have run2: "statswrapper_vectorcall plain_interp ab_name_wrapper [Obj 7] [] = Inr ?r2"
    by (simp add: eval_defs)
  have res: "PyObject_Vectorcall plain_interp (wrapped ab_name_wrapper) [Obj 7] [] = Inr (Obj 7)"
    by (simp add: plain_interp_def)
  have ev: "CmpName (Obj 5) (Obj 7) (CmpError ValueError) \<in> set (trace ?r1)" by simp
  have h: "(\<forall>n k e. CmpName n k (CmpError e) \<notin> set (trace ?r2))
        \<and> (\<forall>k a e. CmpKnown k a (CmpError e) \<in> set (trace ?r2) \<longrightarrow> \<not> critical e)"
    by auto
  from comparison_failure_recovery [OF run1] ev have "ret ?r1 = None \<and> err ?r1 = Some ValueError"
    by blast
  moreover from comparison_failure_recovery [OF run2] h res
  have "ret ?r2 = Some (Obj 7) \<and> err ?r2 = None"
    by simp
  ultimately show ?thesis using run1 run2 res by simp
qed

section \<open>C4: what the caller gets\<close>

text \<open>
  C4, as amended. On a well-formed wrapper whose counters have room and whose \<open>npos\<close> is
  no more than the length of the array, every call returns. If no comparison ended it (no
  known-value comparison failed critically, no name comparison failed), the wrapped
  callable was called exactly once, with the positional and keyword arguments as they
  were given; the call returns what that call returned, or \<^verbatim>\<open>NULL\<close> with the exception it
  raised, and \<open>error_results\<close> has grown by one exactly when it raised. If a comparison
  ended the call, the wrapped callable was not called, \<^verbatim>\<open>NULL\<close> is returned with the
  exception of that comparison, the last event of the call, and \<open>error_results\<close> is
  unchanged.
\<close>

theorem wrapper_passes_call_through:
  assumes "wf_wrapper s" and "room (length pos + length kw) s" and "npos s \<le> Py_SIZE s"
  shows "\<exists>r. statswrapper_vectorcall env s pos kw = Inr r
           \<and> (\<not> interrupted (trace r) \<longrightarrow>
                filter is_call (trace r) =
                  [CallWrapped (wrapped s) pos kw (PyObject_Vectorcall env (wrapped s) pos kw)]
                \<and> (case PyObject_Vectorcall env (wrapped s) pos kw of
                      Inl e \<Rightarrow> ret r = None \<and> err r = Some e
                               \<and> error_results (self_after r) = error_results s + 1
                    | Inr v \<Rightarrow> ret r = Some v \<and> err r = None
                               \<and> error_results (self_after r) = error_results s))
           \<and> (interrupted (trace r) \<longrightarrow>
                filter is_call (trace r) = [] \<and> ret r = None
                \<and> err r = aborting (last (trace r)) \<and> err r \<noteq> None
                \<and> error_results (self_after r) = error_results s)"
proof -
  from vectorcall_no_fault [OF assms] obtain r where
    r: "statswrapper_vectorcall env s pos kw = Inr r" by blast
  have "\<not> interrupted (trace r) \<longrightarrow>
          filter is_call (trace r) =
            [CallWrapped (wrapped s) pos kw (PyObject_Vectorcall env (wrapped s) pos kw)]
          \<and> (case PyObject_Vectorcall env (wrapped s) pos kw of
                Inl e \<Rightarrow> ret r = None \<and> err r = Some e
                         \<and> error_results (self_after r) = error_results s + 1
              | Inr v \<Rightarrow> ret r = Some v \<and> err r = None
                         \<and> error_results (self_after r) = error_results s)"
  proof
    assume "\<not> interrupted (trace r)"
    with r have d: "ends_delegated env s pos kw r" by (rule vectorcall_not_interrupted)
    from ends_delegated_call [OF d] d show "filter is_call (trace r) =
            [CallWrapped (wrapped s) pos kw (PyObject_Vectorcall env (wrapped s) pos kw)]
          \<and> (case PyObject_Vectorcall env (wrapped s) pos kw of
                Inl e \<Rightarrow> ret r = None \<and> err r = Some e
                         \<and> error_results (self_after r) = error_results s + 1
              | Inr v \<Rightarrow> ret r = Some v \<and> err r = None
                         \<and> error_results (self_after r) = error_results s)"
      by (simp add: ends_delegated_def Let_def)
  qed
  moreover have "interrupted (trace r) \<longrightarrow>
          filter is_call (trace r) = [] \<and> ret r = None
          \<and> err r = aborting (last (trace r)) \<and> err r \<noteq> None
          \<and> error_results (self_after r) = error_results s"
    using vectorcall_interrupted_facts [OF r] by blast
  ultimately show ?thesis using r by blast
qed

text \<open>
  The claim as stated fails: on \<^verbatim>\<open>stats_wrapper(f, ("a", "b"), name=("x", "y"))\<close>, take
  the call with the argument \<^verbatim>\<open>"b"\<close> and a keyword whose name is \<open>Obj 7\<close>, and the call
  with the arguments \<^verbatim>\<open>"b"\<close> and \<open>Obj 8\<close>. The wrapped callable would return \<^verbatim>\<open>"b"\<close> for
  both. The wrapper does not call it: it returns \<^verbatim>\<open>NULL\<close>, with the \<open>ValueError\<close> of the
  name comparison in the first, with the \<open>MemoryError\<close> of the comparison of \<^verbatim>\<open>"x"\<close> with
  \<open>Obj 8\<close> in the second.
\<close>

theorem wrapper_call_not_delegated:
  "PyObject_Vectorcall plain_interp (wrapped ab_name_wrapper) [Obj 2] [(Obj 7, Obj 3)]
     = Inr (Obj 2)
   \<and> statswrapper_vectorcall plain_interp ab_name_wrapper [Obj 2] [(Obj 7, Obj 3)] =
     Inr \<lparr>self_after = ab_name_wrapper
            \<lparr>args := (args ab_name_wrapper)
               [0 := (args ab_name_wrapper ! 0)\<lparr>count := 1, param_counts := [0, 1]\<rparr>]\<rparr>,
          ret = None, err = Some ValueError,
          trace = [CmpName (Obj 5) (Obj 7) (CmpError ValueError)]\<rparr>
   \<and> PyObject_Vectorcall plain_interp (wrapped ab_name_wrapper) [Obj 2, Obj 8] []
     = Inr (Obj 2)
   \<and> statswrapper_vectorcall plain_interp ab_name_wrapper [Obj 2, Obj 8] [] =
     Inr \<lparr>self_after = ab_name_wrapper
            \<lparr>args := (args ab_name_wrapper)
               [0 := (args ab_name_wrapper ! 0)\<lparr>count := 1, param_counts := [0, 1]\<rparr>,
                1 := (args ab_name_wrapper ! 1)\<lparr>count := 1\<rparr>]\<rparr>,
          ret = None, err = Some MemoryError,
          trace = [CmpKnown (Obj 3) (Obj 8) (CmpError MemoryError)]\<rparr>"
  by (simp add: eval_defs)

theorem wrapper_passes_call_through_witness:
  "wf_wrapper ab_name_wrapper \<and> room (length [Obj 2] + length [(Obj 5, Obj 4)]) ab_name_wrapper
   \<and> npos ab_name_wrapper \<le> Py_SIZE ab_name_wrapper
   \<and> statswrapper_vectorcall plain_interp ab_name_wrapper [Obj 2] [(Obj 5, Obj 4)] =
     Inr \<lparr>self_after = ab_name_wrapper
            \<lparr>total_calls := 1,
             args := (args ab_name_wrapper)
               [0 := (args ab_name_wrapper ! 0)\<lparr>count := 1, param_counts := [0, 1]\<rparr>,
                1 := (args ab_name_wrapper ! 1)\<lparr>count := 1, param_counts := [0, 1]\<rparr>]\<rparr>,
          ret = Some (Obj 2), err = None,
          trace = [CallWrapped (Obj 0) [Obj 2] [(Obj 5, Obj 4)] (Inr (Obj 2))]\<rparr>
   \<and> (\<exists>r. statswrapper_vectorcall plain_interp ab_name_wrapper [Obj 2] [(Obj 5, Obj 4)] = Inr r
          \<and> \<not> interrupted (trace r) \<and> ret r = Some (Obj 2) \<and> err r = None
          \<and> error_results (self_after r) = error_results ab_name_wrapper)"
proof -
  let ?r = "\<lparr>self_after = ab_name_wrapper
            \<lparr>total_calls := 1,
             args := (args ab_name_wrapper)
               [0 := (args ab_name_wrapper ! 0)\<lparr>count := 1, param_counts := [0, 1]\<rparr>,
                1 := (args ab_name_wrapper ! 1)\<lparr>count := 1, param_counts := [0, 1]\<rparr>]\<rparr>,
          ret = Some (Obj 2), err = None,
          trace = [CallWrapped (Obj 0) [Obj 2] [(Obj 5, Obj 4)] (Inr (Obj 2))]\<rparr>"
  have wf: "wf_wrapper ab_name_wrapper" by (simp add: wf_defs)
  have rm: "room (length [Obj 2] + length [(Obj 5, Obj 4)]) ab_name_wrapper"
    by (simp add: wf_defs)
  have bd: "npos ab_name_wrapper \<le> Py_SIZE ab_name_wrapper" by (simp add: wf_defs)
  have run: "statswrapper_vectorcall plain_interp ab_name_wrapper [Obj 2] [(Obj 5, Obj 4)] = Inr ?r"
    by (simp add: eval_defs)
  have res: "PyObject_Vectorcall plain_interp (wrapped ab_name_wrapper) [Obj 2] [(Obj 5, Obj 4)]
             = Inr (Obj 2)"
    by (simp add: plain_interp_def)
  have q: "\<not> interrupted (trace ?r)" by (simp add: interrupted_def)
  from wrapper_passes_call_through [OF wf rm bd, of plain_interp] obtain r where
    r: "statswrapper_vectorcall plain_interp ab_name_wrapper [Obj 2] [(Obj 5, Obj 4)] = Inr r"
    and d: "\<not> interrupted (trace r) \<longrightarrow>
       (case PyObject_Vectorcall plain_interp (wrapped ab_name_wrapper) [Obj 2] [(Obj 5, Obj 4)] of
          Inl e \<Rightarrow> ret r = None \<and> err r = Some e
                   \<and> error_results (self_after r) = error_results ab_name_wrapper + 1
        | Inr v \<Rightarrow> ret r = Some v \<and> err r = None
                   \<and> error_results (self_after r) = error_results ab_name_wrapper)"
    by blast
  from r run have "r = ?r" by simp
  with q have "\<not> interrupted (trace r)" by simp
  with d res have "ret r = Some (Obj 2) \<and> err r = None
      \<and> error_results (self_after r) = error_results ab_name_wrapper" by simp
  with r \<open>\<not> interrupted (trace r)\<close> wf rm bd run show ?thesis by blast
qed

section \<open>C5: the bounds of \<open>npos\<close>\<close>

text \<open>
  C5. The claim: in every reachable state \<open>npos_only \<le> npos \<le> Py_SIZE - 1\<close>. It holds at
  construction and calls do not change \<open>npos\<close>, but \<^verbatim>\<open>_set_npos\<close> stores a value it has just
  found out of range: on the wrapper \<^verbatim>\<open>stats_wrapper(f)\<close>, which has no slot,
  \<^verbatim>\<open>_set_npos(5)\<close> leads to a state with \<open>npos = 5\<close> above \<open>Py_SIZE - 1 = 0\<close>, and a call
  with two positional arguments then writes past the array.
\<close>

theorem set_npos_breaks_bounds:
  "stats_wrapper_create plain_interp [Obj 0] [] = Inr bare_wrapper
   \<and> run plain_interp bare_wrapper [SetNpos (Obj 105)] = Inr (bare_wrapper\<lparr>npos := 5\<rparr>)
   \<and> npos (bare_wrapper\<lparr>npos := 5\<rparr>) = 5
   \<and> Py_SIZE (bare_wrapper\<lparr>npos := 5\<rparr>) - 1 = 0
   \<and> run plain_interp bare_wrapper [SetNpos (Obj 105), Invoke [Obj 1, Obj 2] []]
       = Inl OutOfBounds"
  by (simp add: stats_wrapper_create_def statswrapper__set_npos_def plain_interp_def
      bare_wrapper_def Py_SIZE_def statswrapper_vectorcall_def handle_arg_stats_def
      ssize_incr_def PY_SSIZE_T_MAX_def after_def)

section \<open>C6: matching against the known values\<close>

text \<open>
  C6. The claim: a per-value count is incremented for a match (the same object, or else
  an equal one), and on no match only the count of the slot. The code counts a comparison
  that failed as a match: after \<^verbatim>\<open>PyErr_Clear()\<close> (line 55) the test \<^verbatim>\<open>if (eq)\<close> (line
  57) sees \<open>eq = -1\<close> and leaves the loop at that index. On the slot with the known
  values \<^verbatim>\<open>("a", "b")\<close>, the argument \<open>Obj 7\<close> is neither of the two objects and equal to
  neither (each comparison raises \<open>ValueError\<close>), the specification's matching finds
  nothing, and the per-value count of \<^verbatim>\<open>"a"\<close> goes from 0 to 1.
\<close>

theorem failed_comparison_counted_as_match:
  "known_params (args ab_name_wrapper ! 0) = Some [Obj 1, Obj 2]
   \<and> param_counts (args ab_name_wrapper ! 0) = [0, 0]
   \<and> Obj 7 \<noteq> Obj 1 \<and> Obj 7 \<noteq> Obj 2
   \<and> PyObject_RichCompareBool plain_interp (Obj 1) (Obj 7) = CmpError ValueError
   \<and> PyObject_RichCompareBool plain_interp (Obj 2) (Obj 7) = CmpError ValueError
   \<and> spec_match plain_interp [Obj 1, Obj 2] (Obj 7) = None
   \<and> handle_arg_stats plain_interp (args ab_name_wrapper ! 0) (Obj 7) =
       Inr (((args ab_name_wrapper ! 0)\<lparr>count := 1, param_counts := [1, 0]\<rparr>, None),
            [CmpKnown (Obj 1) (Obj 7) (CmpError ValueError)])
   \<and> statswrapper_vectorcall plain_interp ab_name_wrapper [Obj 7] [] =
       Inr \<lparr>self_after = ab_name_wrapper
              \<lparr>total_calls := 1,
               args := (args ab_name_wrapper)
                 [0 := (args ab_name_wrapper ! 0)\<lparr>count := 1, param_counts := [1, 0]\<rparr>]\<rparr>,
            ret = Some (Obj 7), err = None,
            trace = [CmpKnown (Obj 1) (Obj 7) (CmpError ValueError),
                     CallWrapped (Obj 0) [Obj 7] [] (Inr (Obj 7))]\<rparr>"
  by (simp add: eval_defs spec_match_def)

section \<open>C7: more positional arguments than \<open>npos\<close>\<close>

text \<open>
  C7, as amended. On a well-formed wrapper whose counters have room and whose \<open>npos\<close> is no
  more than the length of the array, every call with more than \<open>npos\<close> positional
  arguments returns, and unless a comparison ended it (a known-value comparison that
  failed critically, a name comparison that failed): \<open>invalid_args\<close> has grown by exactly
  one, whatever else was invalid; slot \<open>j\<close> was handed the positional argument \<open>j\<close> only
  for \<open>j\<close> below \<open>npos\<close> (and after it the values of the keywords counted for it), so the
  arguments from \<open>npos\<close> on were classified against no slot; the wrapped callable was
  called once with all the arguments as given, and its result is what the call returns.
  If a comparison ended the call, the wrapped callable was not called, \<^verbatim>\<open>NULL\<close> is
  returned and \<open>invalid_args\<close> is unchanged.
\<close>

theorem excess_positional_arguments:
  assumes "wf_wrapper s" and "room (length pos + length kw) s" and "npos s \<le> Py_SIZE s"
    and "npos s < int (length pos)"
  shows "\<exists>r. statswrapper_vectorcall env s pos kw = Inr r
           \<and> (\<not> interrupted (trace r) \<longrightarrow>
                invalid_args (self_after r) = invalid_args s + 1
                \<and> total_calls (self_after r) = total_calls s + 1
                \<and> (\<forall>j<length (args s).
                      Some (args (self_after r) ! j) =
                        classify_all env (args s ! j)
                          ((if int j < npos s then [pos ! j] else [])
                           @ map snd (filter (\<lambda>p. slot_of env s (fst p) = Some j) kw)))
                \<and> filter is_call (trace r) =
                    [CallWrapped (wrapped s) pos kw (PyObject_Vectorcall env (wrapped s) pos kw)]
                \<and> (case PyObject_Vectorcall env (wrapped s) pos kw of
                      Inl e \<Rightarrow> ret r = None \<and> err r = Some e
                    | Inr v \<Rightarrow> ret r = Some v \<and> err r = None))
           \<and> (interrupted (trace r) \<longrightarrow>
                filter is_call (trace r) = [] \<and> ret r = None
                \<and> invalid_args (self_after r) = invalid_args s)"
proof -
  from vectorcall_no_fault [OF assms(1-3)] obtain r where
    r: "statswrapper_vectorcall env s pos kw = Inr r" by blast
  have "interrupted (trace r) \<longrightarrow>
                filter is_call (trace r) = [] \<and> ret r = None
                \<and> invalid_args (self_after r) = invalid_args s"
    using vectorcall_interrupted_facts [OF r] by simp
  moreover have "\<not> interrupted (trace r) \<longrightarrow>
                invalid_args (self_after r) = invalid_args s + 1
                \<and> total_calls (self_after r) = total_calls s + 1
                \<and> (\<forall>j<length (args s).
                      Some (args (self_after r) ! j) =
                        classify_all env (args s ! j)
                          ((if int j < npos s then [pos ! j] else [])
                           @ map snd (filter (\<lambda>p. slot_of env s (fst p) = Some j) kw)))
                \<and> filter is_call (trace r) =
                    [CallWrapped (wrapped s) pos kw (PyObject_Vectorcall env (wrapped s) pos kw)]
                \<and> (case PyObject_Vectorcall env (wrapped s) pos kw of
                      Inl e \<Rightarrow> ret r = None \<and> err r = Some e
                    | Inr v \<Rightarrow> ret r = Some v \<and> err r = None)"
  proof
    assume q: "\<not> interrupted (trace r)"
    with r have d: "ends_delegated env s pos kw r" by (rule vectorcall_not_interrupted)
    from vectorcall_classification(1) [OF r q] assms(4)
    have i: "invalid_args (self_after r) = invalid_args s + 1" by simp
    have c: "\<forall>j<length (args s).
                      Some (args (self_after r) ! j) =
                        classify_all env (args s ! j)
                          ((if int j < npos s then [pos ! j] else [])
                           @ map snd (filter (\<lambda>p. slot_of env s (fst p) = Some j) kw))"
    proof (intro allI impI)
      fix j
      assume j: "j < length (args s)"
      from assms(4) have "(int j < npos s \<and> j < length pos) = (int j < npos s)" by auto
      with vectorcall_classification(2) [OF r q j]
      show "Some (args (self_after r) ! j) =
                        classify_all env (args s ! j)
                          ((if int j < npos s then [pos ! j] else [])
                           @ map snd (filter (\<lambda>p. slot_of env s (fst p) = Some j) kw))"
        by simp
    qed
    from d have "total_calls (self_after r) = total_calls s + 1
        \<and> (case PyObject_Vectorcall env (wrapped s) pos kw of
                      Inl e \<Rightarrow> ret r = None \<and> err r = Some e
                    | Inr v \<Rightarrow> ret r = Some v \<and> err r = None)"
      by (auto simp: ends_delegated_def Let_def split: sum.splits)
    with i c ends_delegated_call [OF d]
    show "invalid_args (self_after r) = invalid_args s + 1
                \<and> total_calls (self_after r) = total_calls s + 1
                \<and> (\<forall>j<length (args s).
                      Some (args (self_after r) ! j) =
                        classify_all env (args s ! j)
                          ((if int j < npos s then [pos ! j] else [])
                           @ map snd (filter (\<lambda>p. slot_of env s (fst p) = Some j) kw)))
                \<and> filter is_call (trace r) =
                    [CallWrapped (wrapped s) pos kw (PyObject_Vectorcall env (wrapped s) pos kw)]
                \<and> (case PyObject_Vectorcall env (wrapped s) pos kw of
                      Inl e \<Rightarrow> ret r = None \<and> err r = Some e
                    | Inr v \<Rightarrow> ret r = Some v \<and> err r = None)"
      by simp
  qed
  ultimately show ?thesis using r by blast
qed

text \<open>
  The claim as stated fails: on \<^verbatim>\<open>stats_wrapper(f, ("a", "b"), name=("x", "y"))\<close>, where
  \<open>npos\<close> is 2, take the call with the three positional arguments \<^verbatim>\<open>"a"\<close>, \<^verbatim>\<open>"c"\<close>, \<^verbatim>\<open>"c"\<close>
  and a keyword whose name is \<open>Obj 7\<close>, and the call with the three positional arguments
  \<^verbatim>\<open>"a"\<close>, \<open>Obj 8\<close>, \<^verbatim>\<open>"c"\<close>. In the first the name comparison raises \<open>ValueError\<close>, in the
  second the comparison of \<^verbatim>\<open>"x"\<close> with \<open>Obj 8\<close> raises \<open>MemoryError\<close>: neither call is
  delegated, and \<open>invalid_args\<close> stays 0.
\<close>

theorem excess_positional_call_aborted:
  "npos ab_name_wrapper < int (length [Obj 1, Obj 9, Obj 9])
   \<and> invalid_args ab_name_wrapper = 0
   \<and> statswrapper_vectorcall plain_interp ab_name_wrapper [Obj 1, Obj 9, Obj 9]
       [(Obj 7, Obj 3)] =
     Inr \<lparr>self_after = ab_name_wrapper
            \<lparr>args := (args ab_name_wrapper)
               [0 := (args ab_name_wrapper ! 0)\<lparr>count := 1, param_counts := [1, 0]\<rparr>,
                1 := (args ab_name_wrapper ! 1)\<lparr>count := 1\<rparr>]\<rparr>,
          ret = None, err = Some ValueError,
          trace = [CmpKnown (Obj 3) (Obj 9) CmpFalse, CmpKnown (Obj 4) (Obj 9) CmpFalse,
                   CmpName (Obj 5) (Obj 7) (CmpError ValueError)]\<rparr>
   \<and> npos ab_name_wrapper < int (length [Obj 1, Obj 8, Obj 9])
   \<and> statswrapper_vectorcall plain_interp ab_name_wrapper [Obj 1, Obj 8, Obj 9] [] =
     Inr \<lparr>self_after = ab_name_wrapper
            \<lparr>args := (args ab_name_wrapper)
               [0 := (args ab_name_wrapper ! 0)\<lparr>count := 1, param_counts := [1, 0]\<rparr>,
                1 := (args ab_name_wrapper ! 1)\<lparr>count := 1\<rparr>]\<rparr>,
          ret = None, err = Some MemoryError,
          trace = [CmpKnown (Obj 3) (Obj 8) (CmpError MemoryError)]\<rparr>"
  by (simp add: eval_defs)

theorem excess_positional_arguments_witness:
  "wf_wrapper ab_name_wrapper
   \<and> room (length [Obj 1, Obj 9, Obj 9] + length [(Obj 5, Obj 3)]) ab_name_wrapper
   \<and> npos ab_name_wrapper \<le> Py_SIZE ab_name_wrapper
   \<and> npos ab_name_wrapper < int (length [Obj 1, Obj 9, Obj 9])
   \<and> statswrapper_vectorcall plain_interp ab_name_wrapper [Obj 1, Obj 9, Obj 9]
       [(Obj 5, Obj 3)] =
     Inr \<lparr>self_after = ab_name_wrapper
            \<lparr>total_calls := 1, invalid_args := 1,
             args := (args ab_name_wrapper)
               [0 := (args ab_name_wrapper ! 0)\<lparr>count := 1, param_counts := [1, 0]\<rparr>,
                1 := (args ab_name_wrapper ! 1)\<lparr>count := 2, param_counts := [1, 0]\<rparr>]\<rparr>,
          ret = Some (Obj 1), err = None,
          trace = [CmpKnown (Obj 3) (Obj 9) CmpFalse, CmpKnown (Obj 4) (Obj 9) CmpFalse,
                   CallWrapped (Obj 0) [Obj 1, Obj 9, Obj 9] [(Obj 5, Obj 3)] (Inr (Obj 1))]\<rparr>
   \<and> (\<exists>r. statswrapper_vectorcall plain_interp ab_name_wrapper [Obj 1, Obj 9, Obj 9]
             [(Obj 5, Obj 3)] = Inr r
          \<and> \<not> interrupted (trace r)
          \<and> invalid_args (self_after r) = invalid_args ab_name_wrapper + 1
          \<and> ret r = Some (Obj 1))"
proof -
  let ?pos = "[Obj 1, Obj 9, Obj 9]"
  let ?kw = "[(Obj 5, Obj 3)]"
  let ?r = "\<lparr>self_after = ab_name_wrapper
            \<lparr>total_calls := 1, invalid_args := 1,
             args := (args ab_name_wrapper)
               [0 := (args ab_name_wrapper ! 0)\<lparr>count := 1, param_counts := [1, 0]\<rparr>,
                1 := (args ab_name_wrapper ! 1)\<lparr>count := 2, param_counts := [1, 0]\<rparr>]\<rparr>,
          ret = Some (Obj 1), err = None,
          trace = [CmpKnown (Obj 3) (Obj 9) CmpFalse, CmpKnown (Obj 4) (Obj 9) CmpFalse,
                   CallWrapped (Obj 0) [Obj 1, Obj 9, Obj 9] [(Obj 5, Obj 3)] (Inr (Obj 1))]\<rparr>"
  have wf: "wf_wrapper ab_name_wrapper" by (simp add: wf_defs)
  have rm: "room (length ?pos + length ?kw) ab_name_wrapper" by (simp add: wf_defs)
  have bd: "npos ab_name_wrapper \<le> Py_SIZE ab_name_wrapper" by (simp add: wf_defs)
  have ex: "npos ab_name_wrapper < int (length ?pos)" by (simp add: ab_name_wrapper_def)
  have run: "statswrapper_vectorcall plain_interp ab_name_wrapper ?pos ?kw = Inr ?r"
    by (simp add: eval_defs)
  have res: "PyObject_Vectorcall plain_interp (wrapped ab_name_wrapper) ?pos ?kw = Inr (Obj 1)"
    by (simp add: plain_interp_def)
  have q: "\<not> interrupted (trace ?r)" by (simp add: interrupted_def)
  from excess_positional_arguments [OF wf rm bd ex, of plain_interp] obtain r where
    r: "statswrapper_vectorcall plain_interp ab_name_wrapper ?pos ?kw = Inr r"
    and d: "\<not> interrupted (trace r) \<longrightarrow>
        invalid_args (self_after r) = invalid_args ab_name_wrapper + 1
        \<and> (case PyObject_Vectorcall plain_interp (wrapped ab_name_wrapper) ?pos ?kw of
              Inl e \<Rightarrow> ret r = None \<and> err r = Some e
            | Inr v \<Rightarrow> ret r = Some v \<and> err r = None)"
    by blast
  from r run have "r = ?r" by simp
  with q have q': "\<not> interrupted (trace r)" by simp
  with d res have "invalid_args (self_after r) = invalid_args ab_name_wrapper + 1
      \<and> ret r = Some (Obj 1)" by simp
  with r q' wf rm bd ex run show ?thesis by blast
qed

section \<open>C8: keyword arguments\<close>

text \<open>
  C8, as amended. On a well-formed wrapper whose counters have room and whose \<open>npos\<close> is
  no more than the length of the array, every call returns, and for its keyword
  arguments: the slot a name is counted for is at an index from \<open>npos_only\<close> on, and,
  when comparing the name with the slots' names does not fail, it is the slot the
  specification's search finds (the same object first, an equal one otherwise). Unless a
  comparison ended the call (a known-value comparison that failed critically, a name
  comparison that failed): each slot is what \<^verbatim>\<open>handle_arg_stats\<close> makes of it for its
  positional argument, if it has one, and then for the values of the keywords counted
  for it, so a keyword that no slot is found for touches no slot and one that has a slot
  is classified by the function that classifies positional arguments; if some keyword has
  no slot, \<open>invalid_args\<close> has grown by one; and the wrapped callable was
  called once with the arguments as given, the call returning what it returned. If a
  comparison ended the call, the wrapped callable was not called, \<^verbatim>\<open>NULL\<close> is returned
  and \<open>invalid_args\<close> is unchanged.
\<close>

theorem keyword_arguments_classified:
  assumes "wf_wrapper s" and "room (length pos + length kw) s" and "npos s \<le> Py_SIZE s"
  shows "\<exists>r. statswrapper_vectorcall env s pos kw = Inr r
           \<and> (\<forall>p\<in>set kw.
                 (\<forall>i. slot_of env s (fst p) = Some i \<longrightarrow>
                        npos_only s \<le> int i \<and> i < length (args s))
                 \<and> (\<not> name_comparison_fails env s (fst p) \<longrightarrow>
                        slot_of env s (fst p) = spec_find_slot env s (fst p)))
           \<and> (\<not> interrupted (trace r) \<longrightarrow>
                (\<forall>j<length (args s).
                   Some (args (self_after r) ! j) =
                     classify_all env (args s ! j)
                       ((if int j < npos s \<and> j < length pos then [pos ! j] else [])
                        @ map snd (filter (\<lambda>p. slot_of env s (fst p) = Some j) kw)))
                \<and> (list_ex (\<lambda>p. slot_of env s (fst p) = None) kw \<longrightarrow>
                      invalid_args (self_after r) = invalid_args s + 1)
                \<and> filter is_call (trace r) =
                    [CallWrapped (wrapped s) pos kw (PyObject_Vectorcall env (wrapped s) pos kw)]
                \<and> (case PyObject_Vectorcall env (wrapped s) pos kw of
                      Inl e \<Rightarrow> ret r = None \<and> err r = Some e
                    | Inr v \<Rightarrow> ret r = Some v \<and> err r = None))
           \<and> (interrupted (trace r) \<longrightarrow>
                filter is_call (trace r) = [] \<and> ret r = None
                \<and> invalid_args (self_after r) = invalid_args s)"
proof -
  from vectorcall_no_fault [OF assms] obtain r where
    r: "statswrapper_vectorcall env s pos kw = Inr r" by blast
  have ended: "interrupted (trace r) \<longrightarrow>
                filter is_call (trace r) = [] \<and> ret r = None
                \<and> invalid_args (self_after r) = invalid_args s"
    using vectorcall_interrupted_facts [OF r] by simp
  have search: "\<forall>p\<in>set kw.
                 (\<forall>i. slot_of env s (fst p) = Some i \<longrightarrow>
                        npos_only s \<le> int i \<and> i < length (args s))
                 \<and> (\<not> name_comparison_fails env s (fst p) \<longrightarrow>
                        slot_of env s (fst p) = spec_find_slot env s (fst p))"
    using find_kw_refines_spec [OF assms(1)] slot_of_bound by blast
  have "\<not> interrupted (trace r) \<longrightarrow>
                (\<forall>j<length (args s).
                   Some (args (self_after r) ! j) =
                     classify_all env (args s ! j)
                       ((if int j < npos s \<and> j < length pos then [pos ! j] else [])
                        @ map snd (filter (\<lambda>p. slot_of env s (fst p) = Some j) kw)))
                \<and> (list_ex (\<lambda>p. slot_of env s (fst p) = None) kw \<longrightarrow>
                      invalid_args (self_after r) = invalid_args s + 1)
                \<and> filter is_call (trace r) =
                    [CallWrapped (wrapped s) pos kw (PyObject_Vectorcall env (wrapped s) pos kw)]
                \<and> (case PyObject_Vectorcall env (wrapped s) pos kw of
                      Inl e \<Rightarrow> ret r = None \<and> err r = Some e
                    | Inr v \<Rightarrow> ret r = Some v \<and> err r = None)"
  proof
    assume q: "\<not> interrupted (trace r)"
    with r have d: "ends_delegated env s pos kw r" by (rule vectorcall_not_interrupted)
    from d have res: "case PyObject_Vectorcall env (wrapped s) pos kw of
                      Inl e \<Rightarrow> ret r = None \<and> err r = Some e
                    | Inr v \<Rightarrow> ret r = Some v \<and> err r = None"
      by (auto simp: ends_delegated_def Let_def split: sum.splits)
    from vectorcall_classification(1) [OF r q]
    have "list_ex (\<lambda>p. slot_of env s (fst p) = None) kw \<longrightarrow>
                      invalid_args (self_after r) = invalid_args s + 1"
      by simp
    with vectorcall_classification(2) [OF r q] res ends_delegated_call [OF d]
    show "(\<forall>j<length (args s).
                   Some (args (self_after r) ! j) =
                     classify_all env (args s ! j)
                       ((if int j < npos s \<and> j < length pos then [pos ! j] else [])
                        @ map snd (filter (\<lambda>p. slot_of env s (fst p) = Some j) kw)))
                \<and> (list_ex (\<lambda>p. slot_of env s (fst p) = None) kw \<longrightarrow>
                      invalid_args (self_after r) = invalid_args s + 1)
                \<and> filter is_call (trace r) =
                    [CallWrapped (wrapped s) pos kw (PyObject_Vectorcall env (wrapped s) pos kw)]
                \<and> (case PyObject_Vectorcall env (wrapped s) pos kw of
                      Inl e \<Rightarrow> ret r = None \<and> err r = Some e
                    | Inr v \<Rightarrow> ret r = Some v \<and> err r = None)"
      by blast
  qed
  with r search ended show ?thesis by blast
qed

text \<open>
  The claim as stated fails: on \<^verbatim>\<open>stats_wrapper(f, ("a", "b"), name=("x", "y"))\<close>, take
  the call with the argument \<^verbatim>\<open>"a"\<close> and two keywords, the first named \<^verbatim>\<open>"c"\<close>, the second
  \<open>Obj 7\<close>, and the call with the argument \<^verbatim>\<open>"a"\<close> and the keywords \<^verbatim>\<open>"c"\<close> and
  \<^verbatim>\<open>name\<close>, the latter with the value \<open>Obj 8\<close>. No slot matches \<^verbatim>\<open>"c"\<close>. In the first call
  the comparison of \<^verbatim>\<open>"name"\<close> with \<open>Obj 7\<close> then raises \<open>ValueError\<close>, in the second the
  comparison of \<^verbatim>\<open>"x"\<close> with \<open>Obj 8\<close> raises \<open>MemoryError\<close>: neither call is forwarded, and
  \<open>invalid_args\<close> stays 0.
\<close>

theorem unmatched_keyword_call_aborted:
  "spec_find_slot plain_interp ab_name_wrapper (Obj 9) = None
   \<and> slot_of plain_interp ab_name_wrapper (Obj 9) = None
   \<and> invalid_args ab_name_wrapper = 0
   \<and> statswrapper_vectorcall plain_interp ab_name_wrapper [Obj 1]
       [(Obj 9, Obj 3), (Obj 7, Obj 3)] =
     Inr \<lparr>self_after = ab_name_wrapper
            \<lparr>args := (args ab_name_wrapper)
               [0 := (args ab_name_wrapper ! 0)\<lparr>count := 1, param_counts := [1, 0]\<rparr>]\<rparr>,
          ret = None, err = Some ValueError,
          trace = [CmpName (Obj 5) (Obj 9) CmpFalse,
                   CmpName (Obj 5) (Obj 7) (CmpError ValueError)]\<rparr>
   \<and> statswrapper_vectorcall plain_interp ab_name_wrapper [Obj 1]
       [(Obj 9, Obj 3), (Obj 5, Obj 8)] =
     Inr \<lparr>self_after = ab_name_wrapper
            \<lparr>args := (args ab_name_wrapper)
               [0 := (args ab_name_wrapper ! 0)\<lparr>count := 1, param_counts := [1, 0]\<rparr>,
                1 := (args ab_name_wrapper ! 1)\<lparr>count := 1\<rparr>]\<rparr>,
          ret = None, err = Some MemoryError,
          trace = [CmpName (Obj 5) (Obj 9) CmpFalse,
                   CmpKnown (Obj 3) (Obj 8) (CmpError MemoryError)]\<rparr>"
  by (simp add: eval_defs slot_of_def spec_find_slot_def)

theorem keyword_arguments_classified_witness:
  "wf_wrapper ab_name_wrapper
   \<and> room (length [Obj 1] + length [(Obj 6, Obj 4), (Obj 9, Obj 3)]) ab_name_wrapper
   \<and> npos ab_name_wrapper \<le> Py_SIZE ab_name_wrapper
   \<and> \<not> name_comparison_fails plain_interp ab_name_wrapper (Obj 6)
   \<and> spec_find_slot plain_interp ab_name_wrapper (Obj 6) = Some 1
   \<and> slot_of plain_interp ab_name_wrapper (Obj 6) = Some 1
   \<and> slot_of plain_interp ab_name_wrapper (Obj 9) = None
   \<and> statswrapper_vectorcall plain_interp ab_name_wrapper [Obj 1]
       [(Obj 6, Obj 4), (Obj 9, Obj 3)] =
     Inr \<lparr>self_after = ab_name_wrapper
            \<lparr>total_calls := 1, invalid_args := 1,
             args := (args ab_name_wrapper)
               [0 := (args ab_name_wrapper ! 0)\<lparr>count := 1, param_counts := [1, 0]\<rparr>,
                1 := (args ab_name_wrapper ! 1)\<lparr>count := 1, param_counts := [0, 1]\<rparr>]\<rparr>,
          ret = Some (Obj 1), err = None,
          trace = [CmpName (Obj 5) (Obj 6) CmpTrue, CmpName (Obj 5) (Obj 9) CmpFalse,
                   CallWrapped (Obj 0) [Obj 1] [(Obj 6, Obj 4), (Obj 9, Obj 3)]
                     (Inr (Obj 1))]\<rparr>
   \<and> (\<exists>r. statswrapper_vectorcall plain_interp ab_name_wrapper [Obj 1]
             [(Obj 6, Obj 4), (Obj 9, Obj 3)] = Inr r
          \<and> \<not> interrupted (trace r)
          \<and> invalid_args (self_after r) = invalid_args ab_name_wrapper + 1
          \<and> ret r = Some (Obj 1))"
proof -
  let ?pos = "[Obj 1]"
  let ?kw = "[(Obj 6, Obj 4), (Obj 9, Obj 3)]"
  let ?r = "\<lparr>self_after = ab_name_wrapper
            \<lparr>total_calls := 1, invalid_args := 1,
             args := (args ab_name_wrapper)
               [0 := (args ab_name_wrapper ! 0)\<lparr>count := 1, param_counts := [1, 0]\<rparr>,
                1 := (args ab_name_wrapper ! 1)\<lparr>count := 1, param_counts := [0, 1]\<rparr>]\<rparr>,
          ret = Some (Obj 1), err = None,
          trace = [CmpName (Obj 5) (Obj 6) CmpTrue, CmpName (Obj 5) (Obj 9) CmpFalse,
                   CallWrapped (Obj 0) [Obj 1] [(Obj 6, Obj 4), (Obj 9, Obj 3)]
                     (Inr (Obj 1))]\<rparr>"
  have wf: "wf_wrapper ab_name_wrapper" by (simp add: wf_defs)
  have rm: "room (length ?pos + length ?kw) ab_name_wrapper" by (simp add: wf_defs)
  have bd: "npos ab_name_wrapper \<le> Py_SIZE ab_name_wrapper" by (simp add: wf_defs)
  have nf: "\<not> name_comparison_fails plain_interp ab_name_wrapper (Obj 6)"
    by (simp add: name_comparison_fails_def ab_name_wrapper_def plain_interp_def)
  have sp: "spec_find_slot plain_interp ab_name_wrapper (Obj 6) = Some 1"
    by (simp add: spec_find_slot_def ab_name_wrapper_def plain_interp_def)
  have s9: "slot_of plain_interp ab_name_wrapper (Obj 9) = None"
    by (simp add: slot_of_def find_kw_def ab_name_wrapper_def plain_interp_def after_def)
  have run: "statswrapper_vectorcall plain_interp ab_name_wrapper ?pos ?kw = Inr ?r"
    by (simp add: eval_defs)
  have res: "PyObject_Vectorcall plain_interp (wrapped ab_name_wrapper) ?pos ?kw = Inr (Obj 1)"
    by (simp add: plain_interp_def)
  have q: "\<not> interrupted (trace ?r)" by (simp add: interrupted_def)
  from keyword_arguments_classified [OF wf rm bd, of plain_interp] obtain r where
    r: "statswrapper_vectorcall plain_interp ab_name_wrapper ?pos ?kw = Inr r"
    and se: "\<forall>p\<in>set ?kw. \<not> name_comparison_fails plain_interp ab_name_wrapper (fst p) \<longrightarrow>
        slot_of plain_interp ab_name_wrapper (fst p)
          = spec_find_slot plain_interp ab_name_wrapper (fst p)"
    and d: "\<not> interrupted (trace r) \<longrightarrow>
        (list_ex (\<lambda>p. slot_of plain_interp ab_name_wrapper (fst p) = None) ?kw \<longrightarrow>
           invalid_args (self_after r) = invalid_args ab_name_wrapper + 1)
        \<and> (case PyObject_Vectorcall plain_interp (wrapped ab_name_wrapper) ?pos ?kw of
              Inl e \<Rightarrow> ret r = None \<and> err r = Some e
            | Inr v \<Rightarrow> ret r = Some v \<and> err r = None)"
    by blast
  from se nf sp have s6: "slot_of plain_interp ab_name_wrapper (Obj 6) = Some 1" by simp
  from r run have "r = ?r" by simp
  with q have q': "\<not> interrupted (trace r)" by simp
  from s9 have "list_ex (\<lambda>p. slot_of plain_interp ab_name_wrapper (fst p) = None) ?kw" by simp
  with d q' res have "invalid_args (self_after r) = invalid_args ab_name_wrapper + 1
      \<and> ret r = Some (Obj 1)" by auto
  with r q' wf rm bd nf sp s6 s9 run show ?thesis by blast
qed

section \<open>C9: the counters along any sequence of operations\<close>

text \<open>
  C9. Let \<open>s\<close> be a state reached from a constructed wrapper by calls and \<^verbatim>\<open>_set_npos\<close>,
  and \<open>s'\<close> a state reached from \<open>s\<close> in the same way. Then in \<open>s\<close> neither \<open>error_results\<close>
  nor \<open>invalid_args\<close> exceeds \<open>total_calls\<close>, and from \<open>s\<close> to \<open>s'\<close> none of \<open>total_calls\<close>,
  \<open>error_results\<close>, \<open>invalid_args\<close>, the slot counts and the per-value counts has
  decreased. (A state is what an operation leaves when it stays clear of undefined
  behaviour; incrementing a counter that holds \<open>PY_SSIZE_T_MAX\<close> leaves none.)
\<close>

theorem counters_monotone_and_bounded:
  assumes "stats_wrapper_create env cpos ckw = Inr s0"
    and "run env s0 ops = Inr s"
    and "run env s ops' = Inr s'"
  shows "error_results s \<le> total_calls s \<and> invalid_args s \<le> total_calls s
         \<and> total_calls s \<le> total_calls s' \<and> error_results s \<le> error_results s'
         \<and> invalid_args s \<le> invalid_args s'
         \<and> list_all2 (\<lambda>a b. count a \<le> count b \<and> list_all2 (\<le>) (param_counts a) (param_counts b))
             (args s) (args s')"
proof -
  from create_counters [OF assms(1)] have "counters_bounded s0"
    by (simp add: counters_bounded_def)
  with run_counters [OF assms(2)] have b: "counters_bounded s" by simp
  from run_counters [OF assms(3)] have le: "counters_le s s'" by simp
  then have "list_all2 arginfo_le (args s) (args s')" by (simp add: counters_le_def)
  then have "list_all2 (\<lambda>a b. count a \<le> count b \<and> list_all2 (\<le>) (param_counts a) (param_counts b))
             (args s) (args s')"
    by (rule list_all2_mono) (simp add: arginfo_le_def)
  with b le show ?thesis by (simp add: counters_bounded_def counters_le_def)
qed

theorem counters_monotone_and_bounded_witness:
  "stats_wrapper_create plain_interp [Obj 0, Obj 20] [(Obj 5, Obj 21)] = Inr ab_name_wrapper
   \<and> run plain_interp ab_name_wrapper [Invoke [] [(Obj 9, Obj 3)]] =
       Inr (ab_name_wrapper\<lparr>total_calls := 1, invalid_args := 1, error_results := 1\<rparr>)
   \<and> run plain_interp (ab_name_wrapper\<lparr>total_calls := 1, invalid_args := 1, error_results := 1\<rparr>)
         [SetNpos (Obj 101), Invoke [Obj 2] []] =
       Inr (ab_name_wrapper
             \<lparr>total_calls := 2, invalid_args := 1, error_results := 1, npos := 1,
              args := (args ab_name_wrapper)
                [0 := (args ab_name_wrapper ! 0)\<lparr>count := 1, param_counts := [0, 1]\<rparr>]\<rparr>)
   \<and> error_results (ab_name_wrapper\<lparr>total_calls := 1, invalid_args := 1, error_results := 1\<rparr>)
       \<le> total_calls (ab_name_wrapper\<lparr>total_calls := 1, invalid_args := 1, error_results := 1\<rparr>)
   \<and> total_calls (ab_name_wrapper\<lparr>total_calls := 1, invalid_args := 1, error_results := 1\<rparr>)
       \<le> total_calls (ab_name_wrapper
             \<lparr>total_calls := 2, invalid_args := 1, error_results := 1, npos := 1,
              args := (args ab_name_wrapper)
                [0 := (args ab_name_wrapper ! 0)\<lparr>count := 1, param_counts := [0, 1]\<rparr>]\<rparr>)"
proof -
  let ?s = "ab_name_wrapper\<lparr>total_calls := 1, invalid_args := 1, error_results := 1\<rparr>"
  let ?s' = "ab_name_wrapper
             \<lparr>total_calls := 2, invalid_args := 1, error_results := 1, npos := 1,
              args := (args ab_name_wrapper)
                [0 := (args ab_name_wrapper ! 0)\<lparr>count := 1, param_counts := [0, 1]\<rparr>]\<rparr>"
  have c: "stats_wrapper_create plain_interp [Obj 0, Obj 20] [(Obj 5, Obj 21)]
           = Inr ab_name_wrapper"
    by (simp add: stats_wrapper_create_def plain_interp_def ab_name_wrapper_def)
  have r1: "run plain_interp ab_name_wrapper [Invoke [] [(Obj 9, Obj 3)]] = Inr ?s"
    by (simp add: eval_defs)
  have r2: "run plain_interp ?s [SetNpos (Obj 101), Invoke [Obj 2] []] = Inr ?s'"
    by (simp add: eval_defs statswrapper__set_npos_def)
  from counters_monotone_and_bounded [OF c r1 r2] c r1 r2 show ?thesis by simp
qed

section \<open>C10: a slot supplied both by position and by name\<close>

text \<open>
  C10, as amended. On a well-formed wrapper whose counters have room and whose \<open>npos\<close> is
  no more than the length of the array, take a call that has a positional argument at
  an index \<open>i\<close> below \<open>npos\<close> and exactly one keyword argument, of value \<open>v\<close>, whose name
  the search counts for slot \<open>i\<close>. The call returns, and unless a comparison ended it (a
  known-value comparison that failed critically, a name comparison that failed): slot
  \<open>i\<close> is what \<^verbatim>\<open>handle_arg_stats\<close> makes of it for the positional argument and then for
  \<open>v\<close>, its count has grown by two; \<open>invalid_args\<close> has grown by one only if there were
  more than \<open>npos\<close> positional arguments or a keyword that no slot is found for, and not
  otherwise; and the wrapped callable was called once with the arguments as given. If a
  comparison ended the call, the wrapped callable was not called and \<^verbatim>\<open>NULL\<close> is returned.
\<close>

theorem slot_supplied_twice:
  assumes "wf_wrapper s" and "room (length pos + length kw) s" and "npos s \<le> Py_SIZE s"
    and "int i < npos s" and "i < length pos"
    and "filter (\<lambda>p. slot_of env s (fst p) = Some i) kw = [(name, v)]"
  shows "\<exists>r. statswrapper_vectorcall env s pos kw = Inr r
           \<and> (\<not> interrupted (trace r) \<longrightarrow>
                Some (args (self_after r) ! i) = classify_all env (args s ! i) [pos ! i, v]
                \<and> count (args (self_after r) ! i) = count (args s ! i) + 2
                \<and> invalid_args (self_after r) = invalid_args s +
                     (if npos s < int (length pos)
                         \<or> list_ex (\<lambda>p. slot_of env s (fst p) = None) kw then 1 else 0)
                \<and> filter is_call (trace r) =
                    [CallWrapped (wrapped s) pos kw (PyObject_Vectorcall env (wrapped s) pos kw)])
           \<and> (interrupted (trace r) \<longrightarrow> filter is_call (trace r) = [] \<and> ret r = None)"
proof -
  from vectorcall_no_fault [OF assms(1-3)] obtain r where
    r: "statswrapper_vectorcall env s pos kw = Inr r" by blast
  from assms(3,4) have i: "i < length (args s)" by (simp add: Py_SIZE_def)
  have "interrupted (trace r) \<longrightarrow> filter is_call (trace r) = [] \<and> ret r = None"
    using vectorcall_interrupted_facts [OF r] by simp
  moreover have "\<not> interrupted (trace r) \<longrightarrow>
                Some (args (self_after r) ! i) = classify_all env (args s ! i) [pos ! i, v]
                \<and> count (args (self_after r) ! i) = count (args s ! i) + 2
                \<and> invalid_args (self_after r) = invalid_args s +
                     (if npos s < int (length pos)
                         \<or> list_ex (\<lambda>p. slot_of env s (fst p) = None) kw then 1 else 0)
                \<and> filter is_call (trace r) =
                    [CallWrapped (wrapped s) pos kw (PyObject_Vectorcall env (wrapped s) pos kw)]"
  proof
    assume q: "\<not> interrupted (trace r)"
    with r have d: "ends_delegated env s pos kw r" by (rule vectorcall_not_interrupted)
    from vectorcall_classification(2) [OF r q i] assms(4-6)
    have c: "Some (args (self_after r) ! i) = classify_all env (args s ! i) [pos ! i, v]"
      by (simp del: classify_all.simps)
    from classify_all_two_count [OF c [symmetric]]
    have "count (args (self_after r) ! i) = count (args s ! i) + 2" .
    with c vectorcall_classification(1) [OF r q] ends_delegated_call [OF d]
    show "Some (args (self_after r) ! i) = classify_all env (args s ! i) [pos ! i, v]
                \<and> count (args (self_after r) ! i) = count (args s ! i) + 2
                \<and> invalid_args (self_after r) = invalid_args s +
                     (if npos s < int (length pos)
                         \<or> list_ex (\<lambda>p. slot_of env s (fst p) = None) kw then 1 else 0)
                \<and> filter is_call (trace r) =
                    [CallWrapped (wrapped s) pos kw (PyObject_Vectorcall env (wrapped s) pos kw)]"
      by simp
  qed
  ultimately show ?thesis using r by blast
qed

text \<open>
  The claim as stated fails: on \<^verbatim>\<open>stats_wrapper(f, ("a", "b"), name=("x", "y"))\<close>, take
  the call with the positional arguments \<^verbatim>\<open>"a"\<close>, \<^verbatim>\<open>"x"\<close> and the keywords \<open>Obj 7\<close> and
  \<^verbatim>\<open>name="y"\<close>, and the call with the same positional arguments and the keyword \<^verbatim>\<open>name\<close>
  with the value \<open>Obj 8\<close>. Both supply slot 1 by position and by name. In the first the
  comparison of \<^verbatim>\<open>"name"\<close> with \<open>Obj 7\<close> raises \<open>ValueError\<close>: the count of slot 1 has grown
  by one only, and nothing is forwarded. In the second the comparison of \<^verbatim>\<open>"x"\<close> with
  \<open>Obj 8\<close> raises \<open>MemoryError\<close>: the count has grown by two, and nothing is forwarded.
\<close>

theorem slot_supplied_twice_call_aborted:
  "kwname (args ab_name_wrapper ! 1) = Some (Obj 5)
   \<and> npos_only ab_name_wrapper = 1 \<and> npos ab_name_wrapper = 2
   \<and> count (args ab_name_wrapper ! 1) = 0
   \<and> statswrapper_vectorcall plain_interp ab_name_wrapper [Obj 1, Obj 3]
       [(Obj 7, Obj 9), (Obj 5, Obj 4)] =
     Inr \<lparr>self_after = ab_name_wrapper
            \<lparr>args := (args ab_name_wrapper)
               [0 := (args ab_name_wrapper ! 0)\<lparr>count := 1, param_counts := [1, 0]\<rparr>,
                1 := (args ab_name_wrapper ! 1)\<lparr>count := 1, param_counts := [1, 0]\<rparr>]\<rparr>,
          ret = None, err = Some ValueError,
          trace = [CmpName (Obj 5) (Obj 7) (CmpError ValueError)]\<rparr>
   \<and> statswrapper_vectorcall plain_interp ab_name_wrapper [Obj 1, Obj 3]
       [(Obj 5, Obj 8)] =
     Inr \<lparr>self_after = ab_name_wrapper
            \<lparr>args := (args ab_name_wrapper)
               [0 := (args ab_name_wrapper ! 0)\<lparr>count := 1, param_counts := [1, 0]\<rparr>,
                1 := (args ab_name_wrapper ! 1)\<lparr>count := 2, param_counts := [1, 0]\<rparr>]\<rparr>,
          ret = None, err = Some MemoryError,
          trace = [CmpKnown (Obj 3) (Obj 8) (CmpError MemoryError)]\<rparr>"
  by (simp add: eval_defs)

theorem slot_supplied_twice_witness:
  "wf_wrapper ab_name_wrapper
   \<and> room (length [Obj 1, Obj 3] + length [(Obj 5, Obj 4)]) ab_name_wrapper
   \<and> npos ab_name_wrapper \<le> Py_SIZE ab_name_wrapper
   \<and> int 1 < npos ab_name_wrapper \<and> 1 < length [Obj 1, Obj 3]
   \<and> filter (\<lambda>p. slot_of plain_interp ab_name_wrapper (fst p) = Some 1) [(Obj 5, Obj 4)]
       = [(Obj 5, Obj 4)]
   \<and> statswrapper_vectorcall plain_interp ab_name_wrapper [Obj 1, Obj 3] [(Obj 5, Obj 4)] =
     Inr \<lparr>self_after = ab_name_wrapper
            \<lparr>total_calls := 1,
             args := (args ab_name_wrapper)
               [0 := (args ab_name_wrapper ! 0)\<lparr>count := 1, param_counts := [1, 0]\<rparr>,
                1 := (args ab_name_wrapper ! 1)\<lparr>count := 2, param_counts := [1, 1]\<rparr>]\<rparr>,
          ret = Some (Obj 1), err = None,
          trace = [CallWrapped (Obj 0) [Obj 1, Obj 3] [(Obj 5, Obj 4)] (Inr (Obj 1))]\<rparr>
   \<and> (\<exists>r. statswrapper_vectorcall plain_interp ab_name_wrapper [Obj 1, Obj 3]
             [(Obj 5, Obj 4)] = Inr r
          \<and> \<not> interrupted (trace r)
          \<and> count (args (self_after r) ! 1) = count (args ab_name_wrapper ! 1) + 2
          \<and> invalid_args (self_after r) = invalid_args ab_name_wrapper)"
proof -
  let ?pos = "[Obj 1, Obj 3]"
  let ?kw = "[(Obj 5, Obj 4)]"
  let ?r = "\<lparr>self_after = ab_name_wrapper
            \<lparr>total_calls := 1,
             args := (args ab_name_wrapper)
               [0 := (args ab_name_wrapper ! 0)\<lparr>count := 1, param_counts := [1, 0]\<rparr>,
                1 := (args ab_name_wrapper ! 1)\<lparr>count := 2, param_counts := [1, 1]\<rparr>]\<rparr>,
          ret = Some (Obj 1), err = None,
          trace = [CallWrapped (Obj 0) [Obj 1, Obj 3] [(Obj 5, Obj 4)] (Inr (Obj 1))]\<rparr>"
  have wf: "wf_wrapper ab_name_wrapper" by (simp add: wf_defs)
  have rm: "room (length ?pos + length ?kw) ab_name_wrapper" by (simp add: wf_defs)
  have bd: "npos ab_name_wrapper \<le> Py_SIZE ab_name_wrapper" by (simp add: wf_defs)
  have i1: "int 1 < npos ab_name_wrapper" by (simp add: ab_name_wrapper_def)
  have i2: "1 < length ?pos" by simp
  have so: "slot_of plain_interp ab_name_wrapper (Obj 5) = Some 1"
    by (simp add: slot_of_def find_kw_def ab_name_wrapper_def)
  then have f: "filter (\<lambda>p. slot_of plain_interp ab_name_wrapper (fst p) = Some 1) ?kw = ?kw"
    by simp
  have ne: "\<not> (npos ab_name_wrapper < int (length ?pos)
       \<or> list_ex (\<lambda>p. slot_of plain_interp ab_name_wrapper (fst p) = None) ?kw)"
    using so by (simp add: ab_name_wrapper_def)
  have run: "statswrapper_vectorcall plain_interp ab_name_wrapper ?pos ?kw = Inr ?r"
    by (simp add: eval_defs)
  have q: "\<not> interrupted (trace ?r)" by (simp add: interrupted_def)
  from slot_supplied_twice [OF wf rm bd i1 i2 f] obtain r where
    r: "statswrapper_vectorcall plain_interp ab_name_wrapper ?pos ?kw = Inr r"
    and d: "\<not> interrupted (trace r) \<longrightarrow>
        count (args (self_after r) ! 1) = count (args ab_name_wrapper ! 1) + 2
        \<and> invalid_args (self_after r) = invalid_args ab_name_wrapper +
             (if npos ab_name_wrapper < int (length ?pos)
                 \<or> list_ex (\<lambda>p. slot_of plain_interp ab_name_wrapper (fst p) = None) ?kw
              then 1 else 0)"
    by blast
  from r run have "r = ?r" by simp
  with q have q': "\<not> interrupted (trace r)" by simp
  with d ne have "count (args (self_after r) ! 1) = count (args ab_name_wrapper ! 1) + 2
      \<and> invalid_args (self_after r) = invalid_args ab_name_wrapper"
    by presburger
  with r q' wf rm bd i1 i2 f run show ?thesis by blast
qed

end
